theory Spec2Isabelle
  imports Complex_Main
begin

unbundle bit_operations_syntax

section \<open>JavaScript numbers, restricted to integers\<close>

text \<open>
  Every number the modelled code handles is an integer (lengths, offsets, bytes, nonces,
  millisecond clock readings), so a JavaScript number is an \<open>int\<close>. The bitwise operators
  of JavaScript first convert their operands to 32 bits: \<open>&\<close>, \<open>|\<close> and \<open><<\<close> to a signed
  32-bit value, \<open>>>>\<close> to an unsigned one; a shift uses the low five bits of its count.
\<close>

definition ToInt32 :: "int \<Rightarrow> int" where
  "ToInt32 x = signed_take_bit 31 x"

definition ToUint32 :: "int \<Rightarrow> int" where
  "ToUint32 x = take_bit 32 x"

definition js_and :: "int \<Rightarrow> int \<Rightarrow> int" where
  "js_and a b = ToInt32 a AND ToInt32 b"

definition js_or :: "int \<Rightarrow> int \<Rightarrow> int" where
  "js_or a b = ToInt32 a OR ToInt32 b"

definition js_shl :: "int \<Rightarrow> int \<Rightarrow> int" where
  "js_shl a b = ToInt32 (push_bit (nat (take_bit 5 b)) (ToInt32 a))"

definition js_ushr :: "int \<Rightarrow> int \<Rightarrow> int" where
  "js_ushr a b = drop_bit (nat (take_bit 5 b)) (ToUint32 a)"

section \<open>Node's Buffer\<close>

text \<open>
  A \<open>Buffer\<close> is a fixed-length array of bytes, here a list of integers in \<open>0..255\<close>.
  The accessors of Node throw a \<open>RangeError\<close> (code \<open>ERR_OUT_OF_RANGE\<close>) when the offset
  leaves the buffer or the value does not fit; an omitted offset (\<open>None\<close>) is 0.
  The other two errors are the ones the repository raises itself.
\<close>

type_synonym buffer = "int list"

datatype error =
    ERR_OUT_OF_RANGE
  | Could_not_decode_varint
  | Not_acknowledged_after_10_attempts

definition dflt :: "int option \<Rightarrow> int" where
  "dflt offset = (case offset of None \<Rightarrow> 0 | Some off \<Rightarrow> off)"

definition alloc :: "int \<Rightarrow> buffer" where
  "alloc n = replicate (nat n) 0"

definition readUInt8 :: "buffer \<Rightarrow> int option \<Rightarrow> error + int" where
  "readUInt8 buf offset =
     (let off = dflt offset in
      if 0 \<le> off \<and> off < int (length buf) then Inr (buf ! nat off)
      else Inl ERR_OUT_OF_RANGE)"

definition writeUInt8 :: "buffer \<Rightarrow> int \<Rightarrow> int option \<Rightarrow> error + buffer" where
  "writeUInt8 buf v offset =
     (let off = dflt offset in
      if v < 0 \<or> 255 < v then Inl ERR_OUT_OF_RANGE
      else if 0 \<le> off \<and> off < int (length buf) then Inr (buf[nat off := v])
      else Inl ERR_OUT_OF_RANGE)"

definition readUInt16BE :: "buffer \<Rightarrow> int option \<Rightarrow> error + int" where
  "readUInt16BE buf offset =
     (let off = dflt offset in
      if 0 \<le> off \<and> off + 1 < int (length buf)
      then Inr (buf ! nat off * 256 + buf ! nat (off + 1))
      else Inl ERR_OUT_OF_RANGE)"

definition writeUInt16BE :: "buffer \<Rightarrow> int \<Rightarrow> int option \<Rightarrow> error + buffer" where
  "writeUInt16BE buf v offset =
     (let off = dflt offset in
      if v < 0 \<or> 65535 < v then Inl ERR_OUT_OF_RANGE
      else if 0 \<le> off \<and> off + 1 < int (length buf)
      then Inr (buf[nat off := v div 256, nat (off + 1) := v mod 256])
      else Inl ERR_OUT_OF_RANGE)"

text \<open>
  \<open>buf.slice(start, stop)\<close> for the non-negative arguments the code passes: both ends are
  clamped to the buffer. \<open>src.copy(target, targetStart)\<close> copies as many bytes of \<open>src\<close>
  as fit behind \<open>targetStart\<close> and never fails for \<open>targetStart \<ge> 0\<close>.
\<close>

definition buf_slice :: "buffer \<Rightarrow> int \<Rightarrow> int \<Rightarrow> buffer" where
  "buf_slice buf start stop = drop (nat start) (take (nat stop) buf)"

definition buf_copy :: "buffer \<Rightarrow> buffer \<Rightarrow> int \<Rightarrow> buffer" where
  "buf_copy src target targetStart =
     (let t = nat targetStart; n = min (length src) (length target - t)
      in take t target @ take n src @ drop (t + n) target)"

text \<open>
  Strings are ASCII (\<open>char\<close> values below 128): there the UTF-8 bytes of a string are its
  characters and \<open>str.length\<close> is the number of bytes.
\<close>

definition utf8 :: "string \<Rightarrow> buffer" where
  "utf8 str = map (\<lambda>c. of_char c) str"

definition toString :: "buffer \<Rightarrow> string" where
  "toString buf = map char_of buf"

section \<open>HazelBuffer (src/src/data.ts)\<close>

definition PACKED_INT_LENGTH :: "int list" where
  "PACKED_INT_LENGTH = [2 ^ 7, 2 ^ 14, 2 ^ 21, 2 ^ 28]"

record HazelMessage =
  tag :: int
  data :: buffer

definition readByte :: "buffer \<Rightarrow> int option \<Rightarrow> error + int" where
  "readByte buf offset = readUInt8 buf offset"

definition writeByte :: "buffer \<Rightarrow> int \<Rightarrow> int option \<Rightarrow> error + buffer" where
  "writeByte buf byte offset = writeUInt8 buf byte offset"

definition readBoolean :: "buffer \<Rightarrow> int option \<Rightarrow> error + bool" where
  "readBoolean buf offset =
     (case readUInt8 buf offset of Inl e \<Rightarrow> Inl e | Inr v \<Rightarrow> Inr (v = 1))"

definition writeBoolean :: "buffer \<Rightarrow> bool \<Rightarrow> int option \<Rightarrow> error + buffer" where
  "writeBoolean buf bool offset = writeUInt8 buf (if bool then 1 else 0) offset"

definition readUInt16 :: "buffer \<Rightarrow> int option \<Rightarrow> error + int" where
  "readUInt16 buf offset = readUInt16BE buf offset"

definition writeUInt16 :: "buffer \<Rightarrow> int \<Rightarrow> int option \<Rightarrow> error + buffer" where
  "writeUInt16 buf short offset = writeUInt16BE buf short offset"

text \<open>
  \<open>readPackedUInt32\<close>: the body of the \<open>do ... while (byte >= 0x80)\<close> loop, with the
  loop variables \<open>res\<close>, \<open>shift\<close> and \<open>cursor\<close> as arguments.
\<close>

function readPackedLoop :: "buffer \<Rightarrow> int \<Rightarrow> int \<Rightarrow> int \<Rightarrow> error + int" where
  "readPackedLoop buf res shift cursor =
     (if cursor \<ge> int (length buf) \<or> shift > 21 then Inl Could_not_decode_varint
      else case readUInt8 buf (Some cursor) of
             Inl e \<Rightarrow> Inl e
           | Inr byte \<Rightarrow>
               (let res' = res + js_shl (js_and byte 0x7F) shift;
                    shift' = shift + 7
                in if byte \<ge> 0x80 then readPackedLoop buf res' shift' (cursor + 1)
                   else Inr res'))"
  by pat_completeness auto
termination
  by (relation "measure (\<lambda>(buf, res, shift, cursor). nat (28 - shift))") auto

declare readPackedLoop.simps [simp del]

definition readPackedUInt32 :: "buffer \<Rightarrow> int option \<Rightarrow> error + int" where
  "readPackedUInt32 buf offset = readPackedLoop buf 0 0 (dflt offset)"

text \<open>
  \<open>writePackedUInt32\<close>: the \<open>while (int & -0x80)\<close> loop and the final write. The result
  is the buffer and the returned \<open>cursor\<close>, which counts the loop's writes only.
\<close>

lemma js_and_nonzero_ToUint32: "js_and i (- 128) \<noteq> 0 \<Longrightarrow> 0 < ToUint32 i"
proof (rule ccontr)
  assume nz: "js_and i (- 128) \<noteq> 0" and "\<not> 0 < ToUint32 i"
  then have "take_bit 32 i = 0"
    by (simp add: ToUint32_def order.antisym)
  then have "signed_take_bit 31 i = 0"
    by (simp add: signed_take_bit_eq_take_bit_shift take_bit_eq_mod)
       (smt (verit) mod_add_eq mod_pos_pos_trivial)
  with nz show False
    by (simp add: js_and_def ToInt32_def)
qed

lemma js_ushr_7_less: "0 < ToUint32 i \<Longrightarrow> ToUint32 (js_ushr i 7) < ToUint32 i"
proof -
  assume pos: "0 < ToUint32 i"
  have eq: "js_ushr i 7 = ToUint32 i div 128"
    by (simp add: js_ushr_def drop_bit_eq_div)
  have lo: "0 \<le> ToUint32 i div 128" and lt: "ToUint32 i div 128 < ToUint32 i"
    using pos by (simp_all add: ToUint32_def)
  have "ToUint32 i < 2 ^ 32"
    unfolding ToUint32_def by (rule take_bit_int_less_exp)
  with lt have "ToUint32 i div 128 < 2 ^ 32"
    by linarith
  with lo have "ToUint32 (ToUint32 i div 128) = ToUint32 i div 128"
    unfolding ToUint32_def [of "ToUint32 i div 128"] by (simp add: take_bit_int_eq_self)
  with eq lt show ?thesis
    by simp
qed

function writePackedLoop :: "buffer \<Rightarrow> int \<Rightarrow> int \<Rightarrow> int \<Rightarrow> error + (buffer \<times> int)" where
  "writePackedLoop buf i offset cursor =
     (if js_and i (- 0x80) \<noteq> 0
      then case writeUInt8 buf (js_or (js_and i 0xff) 0x80) (Some (offset + cursor)) of
             Inl e \<Rightarrow> Inl e
           | Inr buf' \<Rightarrow> writePackedLoop buf' (js_ushr i 7) offset (cursor + 1)
      else case writeUInt8 buf (js_or i 0) (Some (offset + cursor)) of
             Inl e \<Rightarrow> Inl e
           | Inr buf' \<Rightarrow> Inr (buf', cursor))"
  by pat_completeness auto
termination
proof (relation "measure (\<lambda>(buf, i, offset, cursor). nat (ToUint32 i))")
  show "wf (measure (\<lambda>(buf, i, offset, cursor). nat (ToUint32 i)))"
    by simp
next
  fix buf :: buffer and i offset cursor :: int and x2 :: buffer
  assume "js_and i (- 0x80) \<noteq> 0"
  then have "0 < ToUint32 i"
    by (simp add: js_and_nonzero_ToUint32)
  then have "ToUint32 (js_ushr i 7) < ToUint32 i"
    by (rule js_ushr_7_less)
  then show "((x2, js_ushr i 7, offset, cursor + 1), (buf, i, offset, cursor))
      \<in> measure (\<lambda>(buf, i, offset, cursor). nat (ToUint32 i))"
    using \<open>0 < ToUint32 i\<close> by simp
qed

declare writePackedLoop.simps [simp del]

definition writePackedUInt32 :: "buffer \<Rightarrow> int \<Rightarrow> int option \<Rightarrow> error + (buffer \<times> int)" where
  "writePackedUInt32 buf i offset = writePackedLoop buf i (dflt offset) 0"

text \<open>\<open>Array.prototype.findIndex\<close>: the first index whose element satisfies \<open>P\<close>, or -1.\<close>

fun findIndex :: "('a \<Rightarrow> bool) \<Rightarrow> 'a list \<Rightarrow> int" where
  "findIndex P [] = - 1"
| "findIndex P (x # xs) =
     (if P x then 0 else (let r = findIndex P xs in if r < 0 then - 1 else r + 1))"

text \<open>\<open>a || b\<close> on numbers: \<open>b\<close> when \<open>a\<close> is 0.\<close>

definition getPackedUInt32Size :: "int \<Rightarrow> int" where
  "getPackedUInt32Size i =
     (let r = findIndex (\<lambda>b. b > i) PACKED_INT_LENGTH + 1
      in if r \<noteq> 0 then r else int (length PACKED_INT_LENGTH))"

definition readString :: "buffer \<Rightarrow> int option \<Rightarrow> error + string" where
  "readString buf offset =
     (case readPackedUInt32 buf offset of
        Inl e \<Rightarrow> Inl e
      | Inr len \<Rightarrow>
          (let read = getPackedUInt32Size len;
               strBuf = buf_slice buf (dflt offset + read) (dflt offset + read + len)
           in Inr (toString strBuf)))"

text \<open>The result of \<open>writeString\<close> is the buffer and the returned number.\<close>

definition writeString :: "buffer \<Rightarrow> string \<Rightarrow> int option \<Rightarrow> error + (buffer \<times> int)" where
  "writeString buf str offset =
     (let strBuf = utf8 str in
      case writePackedUInt32 buf (int (length strBuf)) offset of
        Inl e \<Rightarrow> Inl e
      | Inr (buf', len) \<Rightarrow>
          Inr (buf_copy strBuf buf' (dflt offset + len), len + int (length strBuf)))"

definition readHazelMessage :: "buffer \<Rightarrow> int option \<Rightarrow> error + HazelMessage" where
  "readHazelMessage buf offset =
     (case readUInt16BE buf (Some (dflt offset)) of
        Inl e \<Rightarrow> Inl e
      | Inr len \<Rightarrow>
          (case readUInt8 buf (Some (dflt offset + 2)) of
             Inl e \<Rightarrow> Inl e
           | Inr t \<Rightarrow>
               Inr \<lparr>tag = t,
                    data = buf_slice buf (dflt offset + 3) (dflt offset + 3 + len)\<rparr>))"

definition writeHazelMessage :: "buffer \<Rightarrow> HazelMessage \<Rightarrow> int option \<Rightarrow> error + (buffer \<times> int)" where
  "writeHazelMessage buf message offset =
     (let off = dflt offset in
      case writeUInt16BE buf (int (length (data message))) (Some off) of
        Inl e \<Rightarrow> Inl e
      | Inr buf1 \<Rightarrow>
          (case writeUInt8 buf1 (tag message) (Some (off + 2)) of
             Inl e \<Rightarrow> Inl e
           | Inr buf2 \<Rightarrow>
               Inr (buf_copy (data message) buf2 (off + 3), 3 + int (length (data message)))))"

section \<open>Packet types (constants.js)\<close>

text \<open>
  Modelled from the spec: \<open>constants.js\<close>, which declares \<open>PacketType\<close> and
  \<open>HAZEL_VERSION\<close>, is not among the sources. The packet types are the one-byte
  discriminators of the spec's data model; the version is the one of its handshake
  scenario (HELLO, nonce 1, version 0).
\<close>

definition NORMAL :: int where "NORMAL = 0x00"
definition RELIABLE :: int where "RELIABLE = 0x01"
definition FRAGMENT :: int where "FRAGMENT = 0x05"
definition HELLO :: int where "HELLO = 0x08"
definition DISCONNECT :: int where "DISCONNECT = 0x09"
definition ACKNOWLEDGEMENT :: int where "ACKNOWLEDGEMENT = 0x0A"
definition PING :: int where "PING = 0x0C"
definition HAZEL_VERSION :: int where "HAZEL_VERSION = 0"

section \<open>Connection\<close>

text \<open>
  The sources hold two revisions of the class \<open>Connection\<close> that the claims are about.
  The server-side one (src/unnamed/part_000, second document) keeps \<open>seenHello\<close>, emits
  \<open>hello\<close> and has \<open>disconnect(force)\<close>; the client-side one (src/src/server.ts, last
  document) answers a HELLO by disconnecting, has \<open>disconnect(forced, reason, message)\<close>
  and parses an inbound DISCONNECT. All other methods are the same text in both, and are
  modelled once, with the role as a parameter where they call \<open>this.disconnect(true)\<close>.
\<close>

datatype role = Server_role | Client_role

text \<open>
  The two closures stored in \<open>pendingAck\<close>: the one of \<open>sendReliable\<close>
  (\<open>clearInterval(interval); resolve(bytes)\<close>), identified by the number of the
  \<open>sendReliable\<close> call it belongs to, and the one of \<open>sendPing\<close>, which captures
  \<open>pingTime\<close>.
\<close>

datatype callback = Acknowledged nat | Ponged int

datatype promise = Pending | Resolved | Rejected error

datatype event =
    Hello buffer
  | Message HazelMessage
  | Close "bool option" "int option" "string option"

text \<open>
  The variables captured by the promise executor of one \<open>sendReliable\<close> call: the
  encoded packet, the attempt counter, whether its interval is still set, and the state of
  the promise it returned. The byte count the promise resolves with is left out.
\<close>

record reliable =
  r_buf :: buffer
  r_attempts :: int
  r_interval :: bool
  r_promise :: promise

text \<open>
  The fields of the class, then what the model adds to observe it: \<open>pingTimer\<close> (the
  1500 ms interval is still set), \<open>onceClose\<close> (the listener registered with
  \<open>once('close')\<close> in the constructor has not run yet), the closures of the
  \<open>sendReliable\<close> calls so far, the datagrams handed to \<open>socket.send\<close> and the events
  emitted, both oldest first.
\<close>

record Connection =
  nonce :: int
  pendingAck :: "int \<rightharpoonup> callback"
  pendingPings :: int
  lastPings :: "int list"
  seenHello :: bool
  pingTimer :: bool
  onceClose :: bool
  reliables :: "reliable list"
  socket :: "buffer list"
  emitted :: "event list"

definition new_Connection :: Connection where
  "new_Connection =
     \<lparr>nonce = 0, pendingAck = Map.empty, pendingPings = 0, lastPings = [0, 0, 0, 0, 0],
      seenHello = False, pingTimer = True, onceClose = True, reliables = [],
      socket = [], emitted = []\<rparr>"

text \<open>\<open>get ping\<close>: \<open>reduce\<close> is a left fold; the division is exact, over the rationals.\<close>

definition ping :: "Connection \<Rightarrow> rat" where
  "ping c = of_int (foldl (\<lambda>a b. a + b) 0 (lastPings c)) / 5"

definition emit :: "event \<Rightarrow> Connection \<Rightarrow> Connection" where
  "emit ev c = c\<lparr>emitted := emitted c @ [ev]\<rparr>"

text \<open>
  The listener the constructor registers with \<open>once('close')\<close>:
  \<open>clearInterval(this.pingTimer); this.pendingAck.clear()\<close>. It is removed when it runs.
\<close>

definition closeListener :: "Connection \<Rightarrow> Connection" where
  "closeListener c = c\<lparr>onceClose := False, pingTimer := False, pendingAck := Map.empty\<rparr>"

text \<open>\<open>emit('close', ...)\<close>: the event, and the listener if it is still registered.\<close>

definition emit_close :: "bool option \<Rightarrow> int option \<Rightarrow> string option \<Rightarrow> Connection \<Rightarrow> Connection" where
  "emit_close forced reason message c =
     (let c1 = emit (Close forced reason message) c
      in if onceClose c1 then closeListener c1 else c1)"

definition sendRaw :: "buffer \<Rightarrow> Connection \<Rightarrow> Connection" where
  "sendRaw b c = c\<lparr>socket := socket c @ [b]\<rparr>"

text \<open>\<open>a % b\<close> of JavaScript takes the sign of \<open>a\<close>.\<close>

definition js_rem :: "int \<Rightarrow> int \<Rightarrow> int" where
  "js_rem a b = sgn a * (\<bar>a\<bar> mod \<bar>b\<bar>)"

text \<open>\<open>getNonce\<close> (\<open>generateNonce\<close> in the client-side revision).\<close>

definition getNonce :: "Connection \<Rightarrow> int \<times> Connection" where
  "getNonce c = (let c' = c\<lparr>nonce := js_rem (nonce c + 1) 65535\<rparr> in (nonce c', c'))"

text \<open>
  \<open>disconnect(force)\<close> of the server-side revision. It is an \<open>async\<close> function, as are
  all the send methods: an exception inside it rejects the promise it returns and does not
  reach the caller, so the model returns the connection as the exception left it.
\<close>

definition disconnect_server :: "Connection \<Rightarrow> bool \<Rightarrow> Connection" where
  "disconnect_server c force =
     (let c1 = emit_close None None None c;
          b = alloc 2
      in case writeByte b DISCONNECT None of
           Inl e \<Rightarrow> c1
         | Inr b1 \<Rightarrow>
             (case writeBoolean b1 (\<not> force) None of
                Inl e \<Rightarrow> c1
              | Inr b2 \<Rightarrow> sendRaw b2 c1))"

text \<open>
  \<open>disconnect(forced, reason, message)\<close> of the client-side revision; first the packet
  of its branch \<open>!forced && typeof reason !== 'undefined'\<close>. A message is truthy when it
  is given and not empty.
\<close>

definition reasonPacket :: "bool \<Rightarrow> int \<Rightarrow> string option \<Rightarrow> error + buffer" where
  "reasonPacket forced reason message =
     (let str = (case message of None \<Rightarrow> [] | Some m \<Rightarrow> m);
          reasonLength =
            1 + (if str \<noteq> [] then getPackedUInt32Size (int (length str)) + int (length str)
                 else 0);
          reasonBuf = alloc reasonLength
      in case writeByte reasonBuf reason None of
           Inl e \<Rightarrow> Inl e
         | Inr reasonBuf1 \<Rightarrow>
             (case (if str \<noteq> []
                    then (case writeString reasonBuf1 str (Some 1) of
                            Inl e \<Rightarrow> Inl e
                          | Inr (reasonBuf2, k) \<Rightarrow> Inr reasonBuf2)
                    else Inr reasonBuf1) of
                Inl e \<Rightarrow> Inl e
              | Inr reasonBuf2 \<Rightarrow>
                  (let b = alloc (5 + reasonLength)
                   in case writeByte b DISCONNECT None of
                        Inl e \<Rightarrow> Inl e
                      | Inr b1 \<Rightarrow>
                          (case writeBoolean b1 (\<not> forced) None of
                             Inl e \<Rightarrow> Inl e
                           | Inr b2 \<Rightarrow>
                               (case writeHazelMessage b2 \<lparr>tag = 0, data = reasonBuf2\<rparr> None of
                                  Inl e \<Rightarrow> Inl e
                                | Inr (b3, k) \<Rightarrow> Inr b3)))))"

definition disconnect :: "Connection \<Rightarrow> bool \<Rightarrow> int option \<Rightarrow> string option \<Rightarrow> Connection" where
  "disconnect c forced reason message =
     (if \<not> forced \<and> reason \<noteq> None
      then (case reasonPacket forced (case reason of Some r \<Rightarrow> r | None \<Rightarrow> 0) message of
              Inl e \<Rightarrow> c
            | Inr b \<Rightarrow> sendRaw b c)
      else (let b = alloc 2
            in case writeByte b DISCONNECT None of
                 Inl e \<Rightarrow> c
               | Inr b1 \<Rightarrow>
                   (case writeBoolean b1 True None of
                      Inl e \<Rightarrow> c
                    | Inr b2 \<Rightarrow> sendRaw b2 (emit_close (Some forced) reason message c))))"

text \<open>\<open>this.disconnect(true)\<close>, in the revision of the role.\<close>

definition disconnect_true :: "role \<Rightarrow> Connection \<Rightarrow> Connection" where
  "disconnect_true rl c =
     (case rl of
        Server_role \<Rightarrow> disconnect_server c True
      | Client_role \<Rightarrow> disconnect c True None None)"

text \<open>
  The \<open>forEach\<close> of \<open>sendNormal\<close> and \<open>sendReliable\<close>:
  \<open>cursor += buf.writeHazelMessage(message, cursor)\<close>.
\<close>

fun writeMessages :: "buffer \<Rightarrow> int \<Rightarrow> HazelMessage list \<Rightarrow> error + buffer" where
  "writeMessages b cursor [] = Inr b"
| "writeMessages b cursor (message # messages) =
     (case writeHazelMessage b message (Some cursor) of
        Inl e \<Rightarrow> Inl e
      | Inr (b', k) \<Rightarrow> writeMessages b' (cursor + k) messages)"

definition sendNormal :: "Connection \<Rightarrow> HazelMessage list \<Rightarrow> Connection" where
  "sendNormal c messages =
     (let len = foldl (\<lambda>a b. a + int (length (data b)) + 3) 1 messages;
          b = alloc len
      in case writeByte b NORMAL None of
           Inl e \<Rightarrow> c
         | Inr b1 \<Rightarrow>
             (case writeMessages b1 1 messages of
                Inl e \<Rightarrow> c
              | Inr b2 \<Rightarrow> sendRaw b2 c))"

text \<open>The packet \<open>sendReliable\<close> builds for a nonce.\<close>

definition reliablePacket :: "int \<Rightarrow> HazelMessage list \<Rightarrow> error + buffer" where
  "reliablePacket n messages =
     (let len = foldl (\<lambda>a b. a + int (length (data b)) + 3) 3 messages;
          b = alloc len
      in case writeByte b RELIABLE None of
           Inl e \<Rightarrow> Inl e
         | Inr b1 \<Rightarrow>
             (case writeUInt16 b1 n (Some 1) of
                Inl e \<Rightarrow> Inl e
              | Inr b2 \<Rightarrow> writeMessages b2 3 messages))"

text \<open>
  The promise executor of \<open>sendReliable\<close>: it creates its variables and sets the
  interval, calls \<open>send()\<close> once and stores the acknowledgement closure under the nonce.
\<close>

definition executor :: "int \<Rightarrow> buffer \<Rightarrow> Connection \<Rightarrow> Connection" where
  "executor n b c =
     (let k = length (reliables c);
          c1 = c\<lparr>reliables := reliables c @
                 [\<lparr>r_buf = b, r_attempts = 0, r_interval = True, r_promise = Pending\<rparr>]\<rparr>;
          c2 = sendRaw b c1
      in c2\<lparr>pendingAck := (pendingAck c2)(n \<mapsto> Acknowledged k)\<rparr>)"

text \<open>
  \<open>sendReliable\<close>: the nonce, the packet, the executor. When building the packet throws,
  the promise returned is rejected with that error and nothing is sent.
\<close>

definition sendReliable :: "Connection \<Rightarrow> HazelMessage list \<Rightarrow> Connection" where
  "sendReliable c messages =
     (case getNonce c of
        (n, c1) \<Rightarrow>
          (case reliablePacket n messages of
             Inl e \<Rightarrow> c1
           | Inr b \<Rightarrow> executor n b c1))"

text \<open>Settling a promise has an effect only while it is pending.\<close>

definition settle :: "promise \<Rightarrow> promise \<Rightarrow> promise" where
  "settle outcome p = (if p = Pending then outcome else p)"

text \<open>
  The two branches of the interval callback of the \<open>k\<close>-th \<open>sendReliable\<close> call:
  \<open>clearInterval(interval); reject(new Error(...))\<close> and \<open>send(); attempts++\<close>.
\<close>

definition giveUp :: "nat \<Rightarrow> Connection \<Rightarrow> Connection" where
  "giveUp k c =
     c\<lparr>reliables := (reliables c)
         [k := (reliables c ! k)
                 \<lparr>r_interval := False,
                  r_promise := settle (Rejected Not_acknowledged_after_10_attempts)
                                 (r_promise (reliables c ! k))\<rparr>]\<rparr>"

definition resend :: "nat \<Rightarrow> Connection \<Rightarrow> Connection" where
  "resend k c =
     (let c1 = sendRaw (r_buf (reliables c ! k)) c
      in c1\<lparr>reliables := (reliables c1)
              [k := (reliables c1 ! k)\<lparr>r_attempts := r_attempts (reliables c1 ! k) + 1\<rparr>]\<rparr>)"

text \<open>
  One firing of the 300 ms interval of the \<open>k\<close>-th \<open>sendReliable\<close> call. A cleared
  interval does not fire.
\<close>

definition retry :: "role \<Rightarrow> nat \<Rightarrow> Connection \<Rightarrow> Connection" where
  "retry rl k c =
     (if k < length (reliables c) \<and> r_interval (reliables c ! k)
      then (if r_attempts (reliables c ! k) = 10
            then disconnect_true rl (giveUp k c)
            else resend k c)
      else c)"

text \<open>
  The \<open>for (let i = 1; i <= 8; i++)\<close> loop of \<open>sendAck\<close>, over the keys of
  \<open>pendingAck\<close>, and \<open>sendAck\<close> itself.
\<close>

function sendAckLoop :: "(int \<rightharpoonup> callback) \<Rightarrow> int \<Rightarrow> int \<Rightarrow> int \<Rightarrow> int" where
  "sendAckLoop pa n i pending =
     (if i \<le> 8
      then sendAckLoop pa n (i + 1)
             (if pa (n - i) = None then js_or pending (js_shl 1 (i - 1)) else pending)
      else pending)"
  by pat_completeness auto
termination
  by (relation "measure (\<lambda>(pa, n, i, pending). nat (9 - i))") auto

declare sendAckLoop.simps [simp del]

definition ackPacket :: "(int \<rightharpoonup> callback) \<Rightarrow> int \<Rightarrow> error + buffer" where
  "ackPacket pa n =
     (let pending = sendAckLoop pa n 1 0;
          b = alloc 4
      in case writeByte b ACKNOWLEDGEMENT None of
           Inl e \<Rightarrow> Inl e
         | Inr b1 \<Rightarrow>
             (case writeUInt16 b1 n (Some 1) of
                Inl e \<Rightarrow> Inl e
              | Inr b2 \<Rightarrow> writeByte b2 pending (Some 3)))"

definition sendAck :: "int \<Rightarrow> Connection \<Rightarrow> Connection" where
  "sendAck n c =
     (case ackPacket (pendingAck c) n of
        Inl e \<Rightarrow> c
      | Inr b \<Rightarrow> sendRaw b c)"

text \<open>
  \<open>sendPing\<close>, at clock reading \<open>now\<close> (\<open>Date.now()\<close>). It stores its closure and counts
  the ping before it builds the packet.
\<close>

definition registerPing :: "int \<Rightarrow> int \<Rightarrow> Connection \<Rightarrow> Connection" where
  "registerPing n pingTime c =
     c\<lparr>pendingAck := (pendingAck c)(n \<mapsto> Ponged pingTime),
       pendingPings := pendingPings c + 1\<rparr>"

definition sendPing :: "role \<Rightarrow> int \<Rightarrow> Connection \<Rightarrow> Connection" where
  "sendPing rl now c =
     (if pendingPings c \<ge> 10 then disconnect_true rl c
      else case getNonce c of
             (n, c1) \<Rightarrow>
               (let c2 = registerPing n now c1;
                    b = alloc 3
                in case writeByte b PING None of
                     Inl e \<Rightarrow> c2
                   | Inr b1 \<Rightarrow>
                       (case writeUInt16 b1 n (Some 1) of
                          Inl e \<Rightarrow> c2
                        | Inr b2 \<Rightarrow> sendRaw b2 c2)))"

text \<open>Running a closure of \<open>pendingAck\<close> at clock reading \<open>now\<close>.\<close>

definition call :: "callback \<Rightarrow> int \<Rightarrow> Connection \<Rightarrow> Connection" where
  "call cb now c =
     (case cb of
        Acknowledged k \<Rightarrow>
          (if k < length (reliables c)
           then c\<lparr>reliables := (reliables c)
                    [k := (reliables c ! k)\<lparr>r_interval := False,
                            r_promise := settle Resolved (r_promise (reliables c ! k))\<rparr>]\<rparr>
           else c)
      | Ponged pingTime \<Rightarrow>
          c\<lparr>pendingPings := pendingPings c - 1,
            lastPings := tl (lastPings c) @ [now - pingTime]\<rparr>)"

text \<open>
  The body of \<open>case PacketType.ACKNOWLEDGEMENT\<close> once the identifier is read:
  \<open>if (this.pendingAck.has(id)) { this.pendingAck.get(id)!(); this.pendingAck.delete(id) }\<close>.
\<close>

definition acknowledge :: "int \<Rightarrow> int \<Rightarrow> Connection \<Rightarrow> Connection" where
  "acknowledge ident now c =
     (case pendingAck c ident of
        None \<Rightarrow> c
      | Some cb \<Rightarrow>
          (let c1 = call cb now c
           in c1\<lparr>pendingAck := (pendingAck c1)(ident := None)\<rparr>))"

text \<open>\<open>this.seenHello = true\<close>.\<close>

definition setSeenHello :: "Connection \<Rightarrow> Connection" where
  "setSeenHello c = c\<lparr>seenHello := True\<rparr>"

text \<open>
  The handlers of inbound datagrams are synchronous: an exception leaves them, and the
  model returns it beside the connection as it was when thrown.
\<close>

function messageLoop :: "buffer \<Rightarrow> int \<Rightarrow> Connection \<Rightarrow> Connection \<times> error option" where
  "messageLoop msg cursor c =
     (if cursor < int (length msg)
      then case readHazelMessage msg (Some cursor) of
             Inl e \<Rightarrow> (c, Some e)
           | Inr message \<Rightarrow>
               messageLoop msg (cursor + (3 + int (length (data message))))
                 (emit (Message message) c)
      else (c, None))"
  by pat_completeness auto
termination
  by (relation "measure (\<lambda>(msg, cursor, c). nat (int (length msg) - cursor))") auto

declare messageLoop.simps [simp del]

text \<open>\<open>handleMessagePacket\<close> of the server-side revision (src/unnamed/part_000, line 403).\<close>

definition handleMessagePacket_server :: "buffer \<Rightarrow> bool \<Rightarrow> Connection \<Rightarrow> Connection \<times> error option" where
  "handleMessagePacket_server msg ack c =
     (let cursor = (if ack then 3 else 1)
      in if int (length msg) < cursor then (disconnect_server c True, None)
         else case (if ack
                    then (case readUInt16 msg (Some 1) of
                            Inl e \<Rightarrow> Inl e
                          | Inr n \<Rightarrow> Inr (sendAck n c))
                    else Inr c) of
                Inl e \<Rightarrow> (c, Some e)
              | Inr c1 \<Rightarrow>
                  (case readByte msg (Some 0) of
                     Inl e \<Rightarrow> (c1, Some e)
                   | Inr t \<Rightarrow>
                       if t = HELLO
                       then (if seenHello c1 \<or> length msg < 4
                             then (disconnect_server c1 True, None)
                             else (let c2 = setSeenHello c1
                                   in case readByte msg (Some 3) of
                                        Inl e \<Rightarrow> (c2, Some e)
                                      | Inr hazelVer \<Rightarrow>
                                          if hazelVer \<noteq> HAZEL_VERSION
                                          then (disconnect_server c2 True, None)
                                          else (emit (Hello (buf_slice msg 4 (int (length msg)))) c2,
                                                None)))
                       else messageLoop msg cursor c1))"

text \<open>\<open>handleMessagePacket\<close> of the client-side revision (src/src/server.ts, last document).\<close>

definition handleMessagePacket :: "buffer \<Rightarrow> bool \<Rightarrow> Connection \<Rightarrow> Connection \<times> error option" where
  "handleMessagePacket msg ack c =
     (let cursor = (if ack then 3 else 1)
      in if int (length msg) < cursor then (disconnect c True None None, None)
         else case readByte msg (Some 0) of
                Inl e \<Rightarrow> (c, Some e)
              | Inr t \<Rightarrow>
                  if t = HELLO then (disconnect c True None None, None)
                  else (case (if ack
                              then (case readUInt16 msg (Some 1) of
                                      Inl e \<Rightarrow> Inl e
                                    | Inr n \<Rightarrow> Inr (sendAck n c))
                              else Inr c) of
                          Inl e \<Rightarrow> (c, Some e)
                        | Inr c1 \<Rightarrow> messageLoop msg cursor c1))"

text \<open>
  The \<open>case PacketType.DISCONNECT\<close> of the client-side \<open>handleMessage\<close>. The arguments of
  \<open>emit\<close> are evaluated left to right, before the event is emitted.
\<close>

definition handleDisconnect :: "buffer \<Rightarrow> Connection \<Rightarrow> Connection \<times> error option" where
  "handleDisconnect msg c =
     (if length msg = 1 then (emit_close (Some True) None None c, None)
      else case readHazelMessage msg (Some 2) of
             Inl e \<Rightarrow> (c, Some e)
           | Inr m \<Rightarrow>
               (let message = data m
                in case readBoolean msg (Some 1) of
                     Inl e \<Rightarrow> (c, Some e)
                   | Inr graceful \<Rightarrow>
                       (case readByte message None of
                          Inl e \<Rightarrow> (c, Some e)
                        | Inr reason \<Rightarrow>
                            if length message > 1
                            then (case readString message (Some 1) of
                                    Inl e \<Rightarrow> (c, Some e)
                                  | Inr str \<Rightarrow>
                                      (emit_close (Some (\<not> graceful)) (Some reason) (Some str) c,
                                       None))
                            else (emit_close (Some (\<not> graceful)) (Some reason) None c, None))))"

text \<open>\<open>handleMessage\<close>, the listener of \<open>data\<close>, at clock reading \<open>now\<close>.\<close>

definition handleMessage :: "role \<Rightarrow> buffer \<Rightarrow> int \<Rightarrow> Connection \<Rightarrow> Connection \<times> error option" where
  "handleMessage rl msg now c =
     (case msg of
        [] \<Rightarrow> (c, None)
      | t # rest \<Rightarrow>
          if t = NORMAL
          then (case rl of
                  Server_role \<Rightarrow> handleMessagePacket_server msg False c
                | Client_role \<Rightarrow> handleMessagePacket msg False c)
          else if t = HELLO \<or> t = RELIABLE
          then (case rl of
                  Server_role \<Rightarrow> handleMessagePacket_server msg True c
                | Client_role \<Rightarrow> handleMessagePacket msg True c)
          else if t = DISCONNECT
          then (case rl of
                  Server_role \<Rightarrow> (emit_close None None None c, None)
                | Client_role \<Rightarrow> handleDisconnect msg c)
          else if t = ACKNOWLEDGEMENT
          then (if length msg \<ge> 3
                then (case readUInt16BE msg (Some 1) of
                        Inl e \<Rightarrow> (c, Some e)
                      | Inr ident \<Rightarrow> (acknowledge ident now c, None))
                else (c, None))
          else if t = FRAGMENT then (c, None)
          else if t = PING
          then (if length msg \<ge> 3
                then (case readUInt16BE msg (Some 1) of
                        Inl e \<Rightarrow> (c, Some e)
                      | Inr n \<Rightarrow> (sendAck n c, None))
                else (c, None))
          else (c, None))"

section \<open>The connection as a state machine\<close>

text \<open>
  Everything that happens to a connection: a datagram arrives (the \<open>data\<close> event) at some
  clock reading, the ping interval fires at some clock reading, the interval of the
  \<open>k\<close>-th \<open>sendReliable\<close> fires, or the application calls \<open>sendNormal\<close>,
  \<open>sendReliable\<close> or \<open>disconnect\<close>. Handlers run one at a time. The server-side
  \<open>disconnect(force)\<close> ignores a reason and a message.
\<close>

datatype input =
    Data buffer int
  | PingTick int
  | RetryTick nat
  | CallSendNormal "HazelMessage list"
  | CallSendReliable "HazelMessage list"
  | CallDisconnect bool "int option" "string option"

definition step :: "role \<Rightarrow> input \<Rightarrow> Connection \<Rightarrow> Connection \<times> error option" where
  "step rl inp c =
     (case inp of
        Data msg now \<Rightarrow> handleMessage rl msg now c
      | PingTick now \<Rightarrow> (if pingTimer c then sendPing rl now c else c, None)
      | RetryTick k \<Rightarrow> (retry rl k c, None)
      | CallSendNormal messages \<Rightarrow> (sendNormal c messages, None)
      | CallSendReliable messages \<Rightarrow> (sendReliable c messages, None)
      | CallDisconnect forced reason message \<Rightarrow>
          (case rl of
             Server_role \<Rightarrow> (disconnect_server c forced, None)
           | Client_role \<Rightarrow> (disconnect c forced reason message, None)))"

text \<open>A run stops at the first exception that leaves a handler.\<close>

fun run :: "role \<Rightarrow> input list \<Rightarrow> Connection \<Rightarrow> Connection \<times> error option" where
  "run rl [] c = (c, None)"
| "run rl (inp # inps) c =
     (case step rl inp c of
        (c', None) \<Rightarrow> run rl inps c'
      | (c', Some e) \<Rightarrow> (c', Some e))"

section \<open>Invariants of the state machine\<close>

text \<open>
  Every handler is composed of ten elementary state changes. A property \<open>P\<close> that each of
  them preserves is preserved by every handler, hence by every step and every run.
  \<open>R\<close> restricts the retransmit intervals whose firing is considered.
\<close>

definition preserved :: "(nat \<Rightarrow> bool) \<Rightarrow> (Connection \<Rightarrow> bool) \<Rightarrow> bool" where
  "preserved R P \<longleftrightarrow>
     (\<forall>c ev. P c \<longrightarrow> P (emit ev c)) \<and>
     (\<forall>c b. P c \<longrightarrow> P (sendRaw b c)) \<and>
     (\<forall>c. P c \<longrightarrow> onceClose c \<longrightarrow> P (closeListener c)) \<and>
     (\<forall>c. P c \<longrightarrow> P (snd (getNonce c))) \<and>
     (\<forall>c n b. P c \<longrightarrow> P (executor n b c)) \<and>
     (\<forall>c k. P c \<longrightarrow> R k \<longrightarrow> k < length (reliables c) \<longrightarrow> r_interval (reliables c ! k) \<longrightarrow>
            r_attempts (reliables c ! k) = 10 \<longrightarrow> P (giveUp k c)) \<and>
     (\<forall>c k. P c \<longrightarrow> R k \<longrightarrow> k < length (reliables c) \<longrightarrow> r_interval (reliables c ! k) \<longrightarrow>
            r_attempts (reliables c ! k) \<noteq> 10 \<longrightarrow> P (resend k c)) \<and>
     (\<forall>c n t. P c \<longrightarrow> P (registerPing n t c)) \<and>
     (\<forall>c i now. P c \<longrightarrow> P (acknowledge i now c)) \<and>
     (\<forall>c. P c \<longrightarrow> P (setSeenHello c))"

lemma preserved_emit: "preserved R P \<Longrightarrow> P c \<Longrightarrow> P (emit ev c)"
  by (simp add: preserved_def)

lemma preserved_sendRaw: "preserved R P \<Longrightarrow> P c \<Longrightarrow> P (sendRaw b c)"
  by (simp add: preserved_def)

lemma preserved_closeListener: "preserved R P \<Longrightarrow> P c \<Longrightarrow> onceClose c \<Longrightarrow> P (closeListener c)"
  by (simp add: preserved_def)

lemma preserved_getNonce: "preserved R P \<Longrightarrow> P c \<Longrightarrow> P (snd (getNonce c))"
  by (simp add: preserved_def)

lemma preserved_executor: "preserved R P \<Longrightarrow> P c \<Longrightarrow> P (executor n b c)"
  by (simp add: preserved_def)

lemma preserved_giveUp:
  "preserved R P \<Longrightarrow> P c \<Longrightarrow> R k \<Longrightarrow> k < length (reliables c) \<Longrightarrow>
   r_interval (reliables c ! k) \<Longrightarrow> r_attempts (reliables c ! k) = 10 \<Longrightarrow> P (giveUp k c)"
  by (simp add: preserved_def)

lemma preserved_resend:
  "preserved R P \<Longrightarrow> P c \<Longrightarrow> R k \<Longrightarrow> k < length (reliables c) \<Longrightarrow>
   r_interval (reliables c ! k) \<Longrightarrow> r_attempts (reliables c ! k) \<noteq> 10 \<Longrightarrow> P (resend k c)"
  by (simp add: preserved_def)

lemma preserved_registerPing: "preserved R P \<Longrightarrow> P c \<Longrightarrow> P (registerPing n t c)"
  by (simp add: preserved_def)

lemma preserved_acknowledge: "preserved R P \<Longrightarrow> P c \<Longrightarrow> P (acknowledge i now c)"
  by (simp add: preserved_def)

lemma preserved_setSeenHello: "preserved R P \<Longrightarrow> P c \<Longrightarrow> P (setSeenHello c)"
  by (simp add: preserved_def)

lemma preserved_emit_close:
  assumes pr: "preserved R P" and P: "P c"
  shows "P (emit_close forced reason message c)"
proof -
  let ?c1 = "emit (Close forced reason message) c"
  have 1: "P ?c1"
    using pr P by (rule preserved_emit)
  show ?thesis
  proof (cases "onceClose ?c1")
    case True
    with pr 1 have "P (closeListener ?c1)"
      by (rule preserved_closeListener)
    with True show ?thesis
      by (simp add: emit_close_def)
  next
    case False
    with 1 show ?thesis
      by (simp add: emit_close_def)
  qed
qed

lemma preserved_disconnect_server:
  assumes pr: "preserved R P" and P: "P c"
  shows "P (disconnect_server c force)"
proof -
  have 1: "P (emit_close None None None c)"
    using pr P by (rule preserved_emit_close)
  then have "\<And>b. P (sendRaw b (emit_close None None None c))"
    by (rule preserved_sendRaw [OF pr])
  with 1 show ?thesis
    by (simp add: disconnect_server_def Let_def split: sum.split)
qed

lemma preserved_disconnect:
  assumes pr: "preserved R P" and P: "P c"
  shows "P (disconnect c forced reason message)"
proof -
  have "P (emit_close (Some forced) reason message c)"
    using pr P by (rule preserved_emit_close)
  then have "\<And>b. P (sendRaw b (emit_close (Some forced) reason message c))"
    by (rule preserved_sendRaw [OF pr])
  moreover have "\<And>b. P (sendRaw b c)"
    using P by (rule preserved_sendRaw [OF pr])
  ultimately show ?thesis
    using P by (cases "\<not> forced \<and> reason \<noteq> None")
      (simp_all only: disconnect_def Let_def if_True if_False split: sum.split, simp_all)
qed

lemma preserved_disconnect_true:
  assumes pr: "preserved R P" and P: "P c"
  shows "P (disconnect_true rl c)"
  using preserved_disconnect_server [OF pr P] preserved_disconnect [OF pr P]
  by (simp add: disconnect_true_def split: role.split)

lemma preserved_sendNormal:
  assumes pr: "preserved R P" and P: "P c"
  shows "P (sendNormal c messages)"
proof -
  have "\<And>b. P (sendRaw b c)"
    using P by (rule preserved_sendRaw [OF pr])
  with P show ?thesis
    by (simp add: sendNormal_def Let_def split: sum.split)
qed

lemma preserved_sendReliable:
  assumes pr: "preserved R P" and P: "P c"
  shows "P (sendReliable c messages)"
proof -
  have 1: "P (snd (getNonce c))"
    using pr P by (rule preserved_getNonce)
  then have ex: "\<And>n b. P (executor n b (snd (getNonce c)))"
    by (rule preserved_executor [OF pr])
  obtain n c1 where g: "getNonce c = (n, c1)"
    by (cases "getNonce c")
  with 1 ex [of n] show ?thesis
    by (simp add: sendReliable_def split: sum.split)
qed

lemma preserved_retry:
  assumes pr: "preserved R P" and R: "R k" and P: "P c"
  shows "P (retry rl k c)"
proof -
  have "P (disconnect_true rl (giveUp k c))"
    if "k < length (reliables c)" "r_interval (reliables c ! k)" "r_attempts (reliables c ! k) = 10"
    using preserved_giveUp [OF pr P R that] by (rule preserved_disconnect_true [OF pr])
  moreover have "P (resend k c)"
    if "k < length (reliables c)" "r_interval (reliables c ! k)" "r_attempts (reliables c ! k) \<noteq> 10"
    using pr P R that by (rule preserved_resend)
  ultimately show ?thesis
    using P by (simp add: retry_def)
qed

lemma preserved_sendAck:
  assumes pr: "preserved R P" and P: "P c"
  shows "P (sendAck n c)"
proof -
  have "\<And>b. P (sendRaw b c)"
    using P by (rule preserved_sendRaw [OF pr])
  with P show ?thesis
    by (simp add: sendAck_def split: sum.split)
qed

lemma preserved_sendPing:
  assumes pr: "preserved R P" and P: "P c"
  shows "P (sendPing rl now c)"
proof -
  have "P (snd (getNonce c))"
    using pr P by (rule preserved_getNonce)
  then have 1: "\<And>n. P (registerPing n now (snd (getNonce c)))"
    by (rule preserved_registerPing [OF pr])
  then have 2: "\<And>n b. P (sendRaw b (registerPing n now (snd (getNonce c))))"
    by (rule preserved_sendRaw [OF pr])
  have 3: "P (disconnect_true rl c)"
    using pr P by (rule preserved_disconnect_true)
  show ?thesis
  proof (cases "pendingPings c \<ge> 10")
    case True
    with 3 show ?thesis by (simp add: sendPing_def)
  next
    case False
    obtain n c1 where g: "getNonce c = (n, c1)"
      by (cases "getNonce c")
    with 1 [of n] 2 [of _ n] False show ?thesis
      by (simp add: sendPing_def Let_def split: sum.split)
  qed
qed

lemma preserved_messageLoop:
  assumes pr: "preserved R P"
  shows "P c \<Longrightarrow> P (fst (messageLoop msg cursor c))"
proof (induction msg cursor c rule: messageLoop.induct)
  case (1 msg cursor c)
  show ?case
  proof (cases "cursor < int (length msg)")
    case False
    with "1.prems" show ?thesis
      by (simp add: messageLoop.simps [of msg cursor c])
  next
    case True
    show ?thesis
    proof (cases "readHazelMessage msg (Some cursor)")
      case (Inl e)
      with True "1.prems" show ?thesis
        by (simp add: messageLoop.simps [of msg cursor c])
    next
      case (Inr m)
      have "P (emit (Message m) c)"
        using "1.prems" by (rule preserved_emit [OF pr])
      with "1.IH" [OF True Inr]
      have "P (fst (messageLoop msg (cursor + (3 + int (length (data m)))) (emit (Message m) c)))"
        by simp
      with True Inr show ?thesis
        by (simp add: messageLoop.simps [of msg cursor c])
    qed
  qed
qed

lemma preserved_ack_first:
  assumes pr: "preserved R P" and P: "P c"
    and eq: "(if ack then (case readUInt16 msg (Some 1) of Inl e \<Rightarrow> Inl e
                | Inr n \<Rightarrow> Inr (sendAck n c)) else Inr c) = Inr c1"
  shows "P c1"
proof (cases ack)
  case False
  with eq P show ?thesis by simp
next
  case True
  with eq obtain n where "c1 = sendAck n c"
    by (auto split: sum.splits)
  then show ?thesis
    using preserved_sendAck [OF pr P] by simp
qed

lemma preserved_hello:
  assumes pr: "preserved R P" and P: "P c"
  shows "P (fst (if seenHello c \<or> length msg < 4 then (disconnect_server c True, None)
            else (let c2 = setSeenHello c
                  in case readByte msg (Some 3) of
                       Inl e \<Rightarrow> (c2, Some e)
                     | Inr hazelVer \<Rightarrow>
                         if hazelVer \<noteq> HAZEL_VERSION then (disconnect_server c2 True, None)
                         else (emit (Hello (buf_slice msg 4 (int (length msg)))) c2, None))))"
proof -
  have 2: "P (setSeenHello c)"
    using P by (rule preserved_setSeenHello [OF pr])
  show ?thesis
    using preserved_disconnect_server [OF pr P] preserved_disconnect_server [OF pr 2]
      preserved_emit [OF pr 2] 2
    by (simp add: Let_def split: sum.split)
qed

lemma preserved_handleMessagePacket_server:
  assumes pr: "preserved R P" and P: "P c"
  shows "P (fst (handleMessagePacket_server msg ack c))"
proof (cases "int (length msg) < (if ack then 3 else 1)")
  case True
  then show ?thesis
    using preserved_disconnect_server [OF pr P]
    by (simp add: handleMessagePacket_server_def)
next
  case False
  show ?thesis
  proof (cases "if ack then (case readUInt16 msg (Some 1) of Inl e \<Rightarrow> Inl e
                | Inr n \<Rightarrow> Inr (sendAck n c)) else Inr c")
    case (Inl e)
    with False P show ?thesis
      by (simp add: handleMessagePacket_server_def)
  next
    case (Inr c1)
    with pr P have c1: "P c1"
      by (rule preserved_ack_first)
    show ?thesis
    proof (cases "readByte msg (Some 0)")
      case (Inl e)
      with False Inr c1 show ?thesis
        by (simp add: handleMessagePacket_server_def)
    next
      case t: (Inr t)
      show ?thesis
      proof (cases "t = HELLO")
        case True
        with False Inr t preserved_hello [OF pr c1, of msg] show ?thesis
          by (simp add: handleMessagePacket_server_def)
      next
        case no: False
        with False Inr t preserved_messageLoop [OF pr c1] show ?thesis
          by (simp add: handleMessagePacket_server_def)
      qed
    qed
  qed
qed

lemma preserved_handleMessagePacket:
  assumes pr: "preserved R P" and P: "P c"
  shows "P (fst (handleMessagePacket msg ack c))"
proof (cases "int (length msg) < (if ack then 3 else 1)")
  case True
  then show ?thesis
    using preserved_disconnect [OF pr P]
    by (simp add: handleMessagePacket_def)
next
  case False
  show ?thesis
  proof (cases "readByte msg (Some 0)")
    case (Inl e)
    with False P show ?thesis
      by (simp add: handleMessagePacket_def)
  next
    case t: (Inr t)
    show ?thesis
    proof (cases "t = HELLO")
      case True
      with False t preserved_disconnect [OF pr P] show ?thesis
        by (simp add: handleMessagePacket_def)
    next
      case no: False
      show ?thesis
      proof (cases "if ack then (case readUInt16 msg (Some 1) of Inl e \<Rightarrow> Inl e
                | Inr n \<Rightarrow> Inr (sendAck n c)) else Inr c")
        case (Inl e)
        with False t no P show ?thesis
          by (simp add: handleMessagePacket_def)
      next
        case (Inr c1)
        with pr P have "P c1"
          by (rule preserved_ack_first)
        with False t no Inr preserved_messageLoop [OF pr, of c1] show ?thesis
          by (simp add: handleMessagePacket_def)
      qed
    qed
  qed
qed

lemma preserved_handleDisconnect:
  assumes pr: "preserved R P" and P: "P c"
  shows "P (fst (handleDisconnect msg c))"
  unfolding handleDisconnect_def Let_def
  using preserved_emit_close [OF pr P] P
  by (simp split: sum.split)

lemma preserved_handleMessage:
  assumes pr: "preserved R P" and P: "P c"
  shows "P (fst (handleMessage rl msg now c))"
  unfolding handleMessage_def
  using preserved_handleMessagePacket_server [OF pr P] preserved_handleMessagePacket [OF pr P]
    preserved_handleDisconnect [OF pr P] preserved_emit_close [OF pr P]
    preserved_acknowledge [OF pr P] preserved_sendAck [OF pr P] P
  by (simp split: list.split role.split sum.split)

lemma preserved_step:
  assumes pr: "preserved R P" and R: "\<And>k. inp = RetryTick k \<Longrightarrow> R k" and P: "P c"
  shows "P (fst (step rl inp c))"
proof (cases inp)
  case (RetryTick k)
  with R have "R k" by simp
  with pr have "P (retry rl k c)"
    using P by (rule preserved_retry)
  with RetryTick show ?thesis
    by (simp add: step_def)
qed (use preserved_handleMessage [OF pr P] preserved_sendPing [OF pr P]
      preserved_sendNormal [OF pr P] preserved_sendReliable [OF pr P]
      preserved_disconnect_server [OF pr P] preserved_disconnect [OF pr P] P
    in \<open>simp_all add: step_def split: role.split\<close>)

lemma preserved_run:
  assumes pr: "preserved (\<lambda>k. True) P"
  shows "P c \<Longrightarrow> P (fst (run rl inps c))"
proof (induction inps arbitrary: c)
  case Nil
  then show ?case by simp
next
  case (Cons inp inps)
  from Cons.prems have "P (fst (step rl inp c))"
    by (simp add: preserved_step [OF pr])
  with Cons.IH show ?case
    by (cases "step rl inp c") (auto split: option.split)
qed

section \<open>The packed integer codec\<close>

text \<open>
  The 32-bit operators of JavaScript on the values the codec meets, in arithmetic terms.
\<close>

lemma ToInt32_id: "0 \<le> x \<Longrightarrow> x < 2147483648 \<Longrightarrow> ToInt32 x = x"
  using signed_take_bit_int_eq_self [of 31 x] by (simp add: ToInt32_def)

lemma and_not_mask_int: "(x::int) AND NOT (mask n) = x - take_bit n x"
proof -
  have "NOT x AND take_bit n x = 0"
    by (rule bit_eqI) (simp add: bit_simps)
  then have "x - take_bit n x = x AND NOT (take_bit n x)"
    by (rule disjunctive_diff_eq_and_not)
  also have "\<dots> = x AND NOT (mask n)"
    by (rule bit_eqI) (auto simp add: bit_simps)
  finally show ?thesis by simp
qed

lemma and_minus_128: "(x::int) AND - 128 = x - x mod 128"
proof -
  have "(- 128 :: int) = NOT (mask 7)"
    by (simp add: mask_eq_exp_minus_1 not_int_def)
  then show ?thesis
    using and_not_mask_int [of x 7] by (simp add: take_bit_eq_mod)
qed

lemma and_127: "(x::int) AND 127 = x mod 128"
  using take_bit_eq_mask [of 7 x] by (simp add: take_bit_eq_mod mask_eq_exp_minus_1)

lemma and_255: "(x::int) AND 255 = x mod 256"
  using take_bit_eq_mask [of 8 x] by (simp add: take_bit_eq_mod mask_eq_exp_minus_1)

lemma or_exp_int: "(x::int) OR 2 ^ n = take_bit n x + 2 ^ n" if "take_bit (Suc n) x = x"
proof -
  have "x OR 2 ^ n = take_bit n x OR 2 ^ n"
  proof (rule bit_eqI)
    fix m
    have "bit x m \<Longrightarrow> m < Suc n"
      using that by (metis bit_take_bit_iff)
    then show "bit (x OR 2 ^ n) m = bit (take_bit n x OR 2 ^ n) m"
      by (auto simp add: bit_simps)
  qed
  also have "\<dots> = take_bit n x + 2 ^ n"
  proof -
    have "take_bit n x AND 2 ^ n = 0"
      by (rule bit_eqI) (simp add: bit_simps)
    then show ?thesis
      by (simp add: disjunctive_add_eq_or)
  qed
  finally show ?thesis .
qed

lemma or_128: "(x::int) OR 128 = 128 + x mod 128" if "0 \<le> x" "x < 256"
proof -
  from that have "take_bit (Suc 7) x = x"
    by (simp add: take_bit_int_eq_self)
  then show ?thesis
    using or_exp_int [of 7 x] by (simp add: take_bit_eq_mod)
qed

lemma js_continue: "js_and i (- 0x80) \<noteq> 0 \<longleftrightarrow> 128 \<le> i" if "0 \<le> i" "i < 2147483648"
proof -
  have "i mod 128 < 128"
    by simp
  moreover have "i < 128 \<Longrightarrow> i mod 128 = i"
    using that by simp
  moreover have "js_and i (- 0x80) = i - i mod 128"
  proof -
    have "ToInt32 i = i"
      using that by (rule ToInt32_id)
    moreover have "ToInt32 (- 128) = - 128"
      by (simp add: ToInt32_def)
    ultimately show ?thesis
      by (simp add: js_and_def and_minus_128)
  qed
  ultimately show ?thesis
    by (cases "i < 128") auto
qed

lemma js_more_byte: "js_or (js_and i 0xff) 0x80 = 128 + i mod 128" if "0 \<le> i" "i < 2147483648"
proof -
  have m: "0 \<le> i mod 256" "i mod 256 < 256"
    by simp_all
  have "i mod 256 mod 128 = i mod 128"
    by (simp add: mod_mod_cancel)
  moreover have "ToInt32 255 = 255" "ToInt32 128 = 128"
    by (simp_all add: ToInt32_def)
  moreover have "ToInt32 (i mod 256) = i mod 256"
    using m by (simp add: ToInt32_id)
  ultimately show ?thesis
    using that m by (simp add: js_or_def js_and_def ToInt32_id and_255 or_128)
qed

lemma js_ushr_7: "js_ushr i 7 = i div 128" if "0 \<le> i" "i < 4294967296"
  using that take_bit_int_eq_self [of i 32]
  by (simp add: js_ushr_def ToUint32_def drop_bit_eq_div)

lemma js_last_byte: "js_or i 0 = i" if "0 \<le> i" "i < 2147483648"
  using that ToInt32_id [of i] by (simp add: js_or_def ToInt32_def)

lemma js_low7: "js_and byte 0x7F = byte mod 128" if "0 \<le> byte" "byte < 256"
proof -
  have "ToInt32 127 = 127"
    by (simp add: ToInt32_def)
  then show ?thesis
    using that by (simp add: js_and_def ToInt32_id and_127)
qed

lemma js_shl_small: "js_shl x s = x * 2 ^ nat s" if "0 \<le> x" "x < 128" "0 \<le> s" "s \<le> 21"
proof -
  have s: "take_bit 5 s = s"
    using that by (simp add: take_bit_int_eq_self)
  have "x * 2 ^ nat s \<le> 127 * 2 ^ nat s"
    using that by (simp add: mult_right_mono)
  also have "(2::int) ^ nat s \<le> 2 ^ 21"
    using that by (intro power_increasing) simp_all
  finally have "x * 2 ^ nat s < 2147483648"
    by simp
  moreover have "0 \<le> x * 2 ^ nat s"
    using that by simp
  ultimately show ?thesis
    using that by (simp add: js_shl_def s ToInt32_id push_bit_eq_mult)
qed

lemma writePackedLoop_last:
  assumes "0 \<le> i" "i < 128" "0 \<le> offset + cursor" "offset + cursor < int (length buf)"
  shows "writePackedLoop buf i offset cursor = Inr (buf[nat (offset + cursor) := i], cursor)"
proof -
  have "\<not> js_and i (- 0x80) \<noteq> 0"
    using assms js_continue [of i] by simp
  moreover have "js_or i 0 = i"
    using assms by (simp add: js_last_byte)
  ultimately show ?thesis
    using assms by (simp add: writePackedLoop.simps [of buf i offset cursor] writeUInt8_def dflt_def)
qed

lemma writePackedLoop_more:
  assumes "128 \<le> i" "i < 2147483648" "0 \<le> offset + cursor" "offset + cursor < int (length buf)"
  shows "writePackedLoop buf i offset cursor =
         writePackedLoop (buf[nat (offset + cursor) := 128 + i mod 128]) (i div 128) offset (cursor + 1)"
proof -
  have "js_and i (- 0x80) \<noteq> 0"
    using assms js_continue [of i] by simp
  moreover have "js_or (js_and i 0xff) 0x80 = 128 + i mod 128"
    using assms by (simp add: js_more_byte)
  moreover have "js_ushr i 7 = i div 128"
    using assms by (simp add: js_ushr_7)
  moreover have "writeUInt8 buf (128 + i mod 128) (Some (offset + cursor)) =
      Inr (buf[nat (offset + cursor) := 128 + i mod 128])"
  proof -
    have "\<not> (128 + i mod 128 < 0 \<or> 255 < 128 + i mod 128)"
      using pos_mod_bound [of 128 i] pos_mod_sign [of 128 i] by linarith
    then show ?thesis
      using assms by (simp add: writeUInt8_def dflt_def)
  qed
  ultimately show ?thesis
    by (simp add: writePackedLoop.simps [of buf i offset cursor])
qed

lemma readPackedLoop_last:
  assumes "0 \<le> cursor" "cursor < int (length buf)" "0 \<le> shift" "shift \<le> 21"
    and "0 \<le> buf ! nat cursor" "buf ! nat cursor < 128"
  shows "readPackedLoop buf res shift cursor = Inr (res + buf ! nat cursor * 2 ^ nat shift)"
proof -
  have "js_and (buf ! nat cursor) 0x7F = buf ! nat cursor"
    using assms by (simp add: js_low7)
  then show ?thesis
    using assms
    by (simp add: readPackedLoop.simps [of buf res shift cursor] readUInt8_def dflt_def
        js_shl_small Let_def)
qed

lemma readPackedLoop_more:
  assumes "0 \<le> cursor" "cursor < int (length buf)" "0 \<le> shift" "shift \<le> 21"
    and "128 \<le> buf ! nat cursor" "buf ! nat cursor < 256"
  shows "readPackedLoop buf res shift cursor =
         readPackedLoop buf (res + (buf ! nat cursor mod 128) * 2 ^ nat shift) (shift + 7) (cursor + 1)"
proof -
  have "js_and (buf ! nat cursor) 0x7F = buf ! nat cursor mod 128"
    using assms by (simp add: js_low7)
  moreover have "0 \<le> buf ! nat cursor mod 128" "buf ! nat cursor mod 128 < 128"
    by simp_all
  ultimately show ?thesis
    using assms
    by (simp add: readPackedLoop.simps [of buf res shift cursor] readUInt8_def dflt_def
        js_shl_small Let_def)
qed

lemma getPackedUInt32Size_1: "i < 128 \<Longrightarrow> getPackedUInt32Size i = 1"
  by (simp add: getPackedUInt32Size_def PACKED_INT_LENGTH_def)

lemma getPackedUInt32Size_div:
  "128 \<le> i \<Longrightarrow> i < 268435456 \<Longrightarrow> getPackedUInt32Size i = getPackedUInt32Size (i div 128) + 1"
proof -
  assume "128 \<le> i" "i < 268435456"
  then have "i div 128 < 128 \<longleftrightarrow> i < 16384" "i div 128 < 16384 \<longleftrightarrow> i < 2097152"
    "i div 128 < 2097152" "\<not> i < 128"
    by presburger+
  then show ?thesis
    by (simp add: getPackedUInt32Size_def PACKED_INT_LENGTH_def Let_def)
qed

lemma getPackedUInt32Size_range:
  "i < 268435456 \<Longrightarrow> 1 \<le> getPackedUInt32Size i \<and> getPackedUInt32Size i \<le> 4"
  by (simp add: getPackedUInt32Size_def PACKED_INT_LENGTH_def Let_def)

lemma two_pow_shift: "(2::int) ^ nat (7 * int m) = 128 ^ m"
proof -
  have "nat (7 * int m) = 7 * m"
    by simp
  then show ?thesis
    by (simp add: power_mult)
qed

lemma packed_loops:
  fixes off c k m :: nat
  assumes "0 \<le> i" "i < 128 ^ k" "k + m \<le> 4" "off + c + k \<le> length buf" "0 < k"
  shows "\<exists>buf'. writePackedLoop buf i (int off) (int c) =
                  Inr (buf', int c + getPackedUInt32Size i - 1)
      \<and> 1 \<le> getPackedUInt32Size i \<and> getPackedUInt32Size i \<le> int k
      \<and> length buf' = length buf
      \<and> (\<forall>j. j < off + c \<or> off + c + nat (getPackedUInt32Size i) \<le> j \<longrightarrow> buf' ! j = buf ! j)
      \<and> (\<forall>j. off + c \<le> j \<and> j + 1 < off + c + nat (getPackedUInt32Size i)
             \<longrightarrow> 128 \<le> buf' ! j \<and> buf' ! j < 256)
      \<and> 0 \<le> buf' ! (off + c + nat (getPackedUInt32Size i) - 1)
      \<and> buf' ! (off + c + nat (getPackedUInt32Size i) - 1) < 128
      \<and> (\<forall>res. readPackedLoop buf' res (7 * int m) (int (off + c)) = Inr (res + i * 128 ^ m))"
  using assms
proof (induction k arbitrary: i buf c m)
  case 0
  then show ?case by simp
next
  case (Suc k)
  let ?p = "off + c"
  have p: "?p < length buf" and m3: "m \<le> 3"
    using Suc.prems by simp_all
  have shift: "0 \<le> 7 * int m" "7 * int m \<le> 21"
    using m3 by simp_all
  show ?case
  proof (cases "i < 128")
    case True
    let ?buf' = "buf[?p := i]"
    have w: "writePackedLoop buf i (int off) (int c) = Inr (?buf', int c)"
      using writePackedLoop_last [of i "int off" "int c" buf] Suc.prems(1) True p
      by (simp add: nat_int_add)
    have sz: "getPackedUInt32Size i = 1"
      using True by (rule getPackedUInt32Size_1)
    have at: "?buf' ! ?p = i"
      using p by simp
    have r: "readPackedLoop ?buf' res (7 * int m) (int ?p) = Inr (res + i * 128 ^ m)" for res
      using readPackedLoop_last [of "int ?p" ?buf' "7 * int m" res] Suc.prems(1) True p shift at
      by (simp add: two_pow_shift nat_int_add)
    show ?thesis
      using w sz at r Suc.prems(1) True by simp
  next
    case False
    then have big: "128 \<le> i"
      by simp
    have "(128::int) ^ Suc k \<le> 128 ^ 4"
      using Suc.prems(3) by (intro power_increasing) simp_all
    with Suc.prems(2) have lt28: "i < 268435456"
      by simp
    have k0: "k \<noteq> 0"
      using Suc.prems(2) big by (cases k) simp_all
    let ?b = "128 + i mod 128"
    let ?buf1 = "buf[?p := ?b]"
    have w: "writePackedLoop buf i (int off) (int c) =
             writePackedLoop ?buf1 (i div 128) (int off) (int (Suc c))"
      using writePackedLoop_more [of i "int off" "int c" buf] big lt28 p
      by (simp add: nat_int_add add.commute)
    have d: "0 \<le> i div 128" "i div 128 < 128 ^ k"
    proof -
      show "0 \<le> i div 128"
        using Suc.prems(1) by simp
      have "i < 128 ^ k * 128"
        using Suc.prems(2) by (simp add: mult.commute)
      then show "i div 128 < 128 ^ k"
        by (simp add: div_less_iff_less_mult)
    qed
    have "\<exists>buf'. writePackedLoop ?buf1 (i div 128) (int off) (int (Suc c)) =
                  Inr (buf', int (Suc c) + getPackedUInt32Size (i div 128) - 1)
      \<and> 1 \<le> getPackedUInt32Size (i div 128) \<and> getPackedUInt32Size (i div 128) \<le> int k
      \<and> length buf' = length ?buf1
      \<and> (\<forall>j. j < off + Suc c \<or> off + Suc c + nat (getPackedUInt32Size (i div 128)) \<le> j
             \<longrightarrow> buf' ! j = ?buf1 ! j)
      \<and> (\<forall>j. off + Suc c \<le> j \<and> j + 1 < off + Suc c + nat (getPackedUInt32Size (i div 128))
             \<longrightarrow> 128 \<le> buf' ! j \<and> buf' ! j < 256)
      \<and> 0 \<le> buf' ! (off + Suc c + nat (getPackedUInt32Size (i div 128)) - 1)
      \<and> buf' ! (off + Suc c + nat (getPackedUInt32Size (i div 128)) - 1) < 128
      \<and> (\<forall>res. readPackedLoop buf' res (7 * int (Suc m)) (int (off + Suc c)) =
             Inr (res + i div 128 * 128 ^ Suc m))"
      using Suc.prems(3,4) d k0 by (intro Suc.IH) simp_all
    then obtain buf' where
      w': "writePackedLoop ?buf1 (i div 128) (int off) (int (Suc c)) =
                  Inr (buf', int (Suc c) + getPackedUInt32Size (i div 128) - 1)"
      and s1: "1 \<le> getPackedUInt32Size (i div 128)" and sk: "getPackedUInt32Size (i div 128) \<le> int k"
      and len: "length buf' = length ?buf1"
      and frame: "\<And>j. j < off + Suc c \<or> off + Suc c + nat (getPackedUInt32Size (i div 128)) \<le> j
             \<Longrightarrow> buf' ! j = ?buf1 ! j"
      and mid: "\<And>j. off + Suc c \<le> j \<and> j + 1 < off + Suc c + nat (getPackedUInt32Size (i div 128))
             \<Longrightarrow> 128 \<le> buf' ! j \<and> buf' ! j < 256"
      and last: "0 \<le> buf' ! (off + Suc c + nat (getPackedUInt32Size (i div 128)) - 1)"
        "buf' ! (off + Suc c + nat (getPackedUInt32Size (i div 128)) - 1) < 128"
      and rd: "\<And>res. readPackedLoop buf' res (7 * int (Suc m)) (int (off + Suc c)) =
             Inr (res + i div 128 * 128 ^ Suc m)"
      by blast
    have sz: "getPackedUInt32Size i = getPackedUInt32Size (i div 128) + 1"
      using big lt28 by (rule getPackedUInt32Size_div)
    have nsz: "nat (getPackedUInt32Size i) = Suc (nat (getPackedUInt32Size (i div 128)))"
      using sz s1 by simp
    have at: "buf' ! ?p = ?b"
      using frame [of ?p] p by simp
    have b: "128 \<le> ?b" "?b < 256" "?b mod 128 = i mod 128"
      using pos_mod_bound [of 128 i] pos_mod_sign [of 128 i] by simp_all
    have r: "readPackedLoop buf' res (7 * int m) (int ?p) = Inr (res + i * 128 ^ m)" for res
    proof -
      have "readPackedLoop buf' res (7 * int m) (int ?p) =
            readPackedLoop buf' (res + (i mod 128) * 128 ^ m) (7 * int m + 7) (int ?p + 1)"
        using readPackedLoop_more [of "int ?p" buf' "7 * int m" res] p len shift at b
        by (simp add: two_pow_shift nat_int_add)
      also have "\<dots> = Inr (res + (i mod 128) * 128 ^ m + i div 128 * 128 ^ Suc m)"
        using rd [of "res + (i mod 128) * 128 ^ m"] by (simp add: algebra_simps)
      also have "res + (i mod 128) * 128 ^ m + i div 128 * 128 ^ Suc m = res + i * 128 ^ m"
      proof -
        have "res + x * 128 ^ m + q * 128 ^ Suc m = res + (128 * q + x) * 128 ^ m" for x q :: int
          by (simp add: algebra_simps)
        from this [of "i mod 128" "i div 128"] show ?thesis
          by (simp only: mult_div_mod_eq)
      qed
      finally show ?thesis .
    qed
    have fr: "buf' ! j = buf ! j" if "j < ?p \<or> ?p + nat (getPackedUInt32Size i) \<le> j" for j
      using that frame [of j] nsz by auto
    have md: "128 \<le> buf' ! j \<and> buf' ! j < 256"
      if "?p \<le> j \<and> j + 1 < ?p + nat (getPackedUInt32Size i)" for j
    proof (cases "j = ?p")
      case True
      with at b show ?thesis by simp
    next
      case False
      with that nsz mid [of j] show ?thesis by simp
    qed
    have "writePackedLoop buf i (int off) (int c) = Inr (buf', int c + getPackedUInt32Size i - 1)"
      using w w' sz by simp
    moreover have "1 \<le> getPackedUInt32Size i" "getPackedUInt32Size i \<le> int (Suc k)"
      using sz s1 sk by simp_all
    moreover have "length buf' = length buf"
      using len by simp
    moreover have "0 \<le> buf' ! (?p + nat (getPackedUInt32Size i) - 1)"
      "buf' ! (?p + nat (getPackedUInt32Size i) - 1) < 128"
      using last nsz by simp_all
    ultimately show ?thesis
      using fr md r by blast
  qed
qed

lemma below_power_of_size:
  "0 \<le> n \<Longrightarrow> n < 268435456 \<Longrightarrow> n < 128 ^ nat (getPackedUInt32Size n)"
  by (simp add: getPackedUInt32Size_def PACKED_INT_LENGTH_def Let_def)

text \<open>
  Claim C4, as the code has it. For every \<open>n\<close> with \<open>0 \<le> n < 2\<^sup>2\<^sup>8\<close> and every buffer with room
  at the offset, \<open>writePackedUInt32\<close> succeeds, touches exactly the
  \<open>getPackedUInt32Size n\<close> bytes from the offset on (continuation bytes, then a final byte
  below 128; every other byte keeps its value), and \<open>readPackedUInt32\<close> at the same
  offset reads \<open>n\<close> back; that size lies between 1 and 4. The number the writer returns
  is its \<open>cursor\<close>, one less than the number of bytes written.
\<close>

theorem writePackedUInt32_read_back:
  fixes off :: nat
  assumes "0 \<le> n" and "n < 2 ^ 28"
    and "off + nat (getPackedUInt32Size n) \<le> length buf"
  shows "\<exists>buf'. writePackedUInt32 buf n (Some (int off)) = Inr (buf', getPackedUInt32Size n - 1)
      \<and> 1 \<le> getPackedUInt32Size n \<and> getPackedUInt32Size n \<le> 4
      \<and> length buf' = length buf
      \<and> (\<forall>j. j < off \<or> off + nat (getPackedUInt32Size n) \<le> j \<longrightarrow> buf' ! j = buf ! j)
      \<and> (\<forall>j. off \<le> j \<and> j + 1 < off + nat (getPackedUInt32Size n)
             \<longrightarrow> 128 \<le> buf' ! j \<and> buf' ! j < 256)
      \<and> 0 \<le> buf' ! (off + nat (getPackedUInt32Size n) - 1)
      \<and> buf' ! (off + nat (getPackedUInt32Size n) - 1) < 128
      \<and> readPackedUInt32 buf' (Some (int off)) = Inr n"
proof -
  have lt: "n < 268435456"
    using assms(2) by simp
  have range: "1 \<le> getPackedUInt32Size n" "getPackedUInt32Size n \<le> 4"
    using getPackedUInt32Size_range [OF lt] by simp_all
  have "\<exists>buf'. writePackedLoop buf n (int off) (int 0) =
                  Inr (buf', int 0 + getPackedUInt32Size n - 1)
      \<and> 1 \<le> getPackedUInt32Size n
      \<and> getPackedUInt32Size n \<le> int (nat (getPackedUInt32Size n))
      \<and> length buf' = length buf
      \<and> (\<forall>j. j < off + 0 \<or> off + 0 + nat (getPackedUInt32Size n) \<le> j \<longrightarrow> buf' ! j = buf ! j)
      \<and> (\<forall>j. off + 0 \<le> j \<and> j + 1 < off + 0 + nat (getPackedUInt32Size n)
             \<longrightarrow> 128 \<le> buf' ! j \<and> buf' ! j < 256)
      \<and> 0 \<le> buf' ! (off + 0 + nat (getPackedUInt32Size n) - 1)
      \<and> buf' ! (off + 0 + nat (getPackedUInt32Size n) - 1) < 128
      \<and> (\<forall>res. readPackedLoop buf' res (7 * int 0) (int (off + 0)) = Inr (res + n * 128 ^ 0))"
    using assms(1,3) range below_power_of_size [OF assms(1) lt]
    by (intro packed_loops) simp_all
  then obtain buf' where
    "writePackedLoop buf n (int off) 0 = Inr (buf', getPackedUInt32Size n - 1)"
    "length buf' = length buf"
    "\<forall>j. j < off \<or> off + nat (getPackedUInt32Size n) \<le> j \<longrightarrow> buf' ! j = buf ! j"
    "\<forall>j. off \<le> j \<and> j + 1 < off + nat (getPackedUInt32Size n)
             \<longrightarrow> 128 \<le> buf' ! j \<and> buf' ! j < 256"
    "0 \<le> buf' ! (off + nat (getPackedUInt32Size n) - 1)"
    "buf' ! (off + nat (getPackedUInt32Size n) - 1) < 128"
    "readPackedLoop buf' 0 0 (int off) = Inr n"
    by auto
  with range show ?thesis
    by (auto simp add: writePackedUInt32_def readPackedUInt32_def dflt_def)
qed

text \<open>The theorem at \<open>n = 300\<close>, written at offset 1 of a four-byte buffer.\<close>

theorem writePackedUInt32_read_back_witness:
  "(0::int) \<le> 300 \<and> (300::int) < 2 ^ 28 \<and> 1 + nat (getPackedUInt32Size 300) \<le> length [0, 0, 0, 0 :: int]
   \<and> writePackedUInt32 [0, 0, 0, 0] 300 (Some 1) = Inr ([0, 172, 2, 0], 1)
   \<and> readPackedUInt32 [0, 172, 2, 0] (Some 1) = Inr 300
   \<and> getPackedUInt32Size 300 = 2"
proof -
  have size: "getPackedUInt32Size 300 = 2"
    by (simp add: getPackedUInt32Size_def PACKED_INT_LENGTH_def)
  have "\<exists>buf'. writePackedUInt32 [0, 0, 0, 0] 300 (Some (int 1)) = Inr (buf', getPackedUInt32Size 300 - 1)
      \<and> 1 \<le> getPackedUInt32Size 300 \<and> getPackedUInt32Size 300 \<le> 4
      \<and> length buf' = length [0, 0, 0, 0 :: int]
      \<and> (\<forall>j. j < 1 \<or> 1 + nat (getPackedUInt32Size 300) \<le> j \<longrightarrow> buf' ! j = [0, 0, 0, 0] ! j)
      \<and> (\<forall>j. 1 \<le> j \<and> j + 1 < 1 + nat (getPackedUInt32Size 300)
             \<longrightarrow> 128 \<le> buf' ! j \<and> buf' ! j < 256)
      \<and> 0 \<le> buf' ! (1 + nat (getPackedUInt32Size 300) - 1)
      \<and> buf' ! (1 + nat (getPackedUInt32Size 300) - 1) < 128
      \<and> readPackedUInt32 buf' (Some (int 1)) = Inr 300"
    by (rule writePackedUInt32_read_back) (simp_all add: size)
  moreover have "writePackedUInt32 [0, 0, 0, 0] 300 (Some 1) = Inr ([0, 172, 2, 0], 1)"
    by code_simp
  ultimately show ?thesis
    using size by auto
qed

text \<open>
  Claim C4 as stated fails from \<open>2\<^sup>2\<^sup>8\<close> on: the writer emits five bytes,
  \<open>getPackedUInt32Size\<close> answers 4, and the reader refuses the fifth byte, because its
  guard \<open>shift > 21\<close> stops after four.
\<close>

theorem packed_five_bytes_counterexample:
  "writePackedUInt32 (alloc 5) 268435456 None = Inr ([128, 128, 128, 128, 1], 4)
   \<and> readPackedUInt32 [128, 128, 128, 128, 1] None = Inl Could_not_decode_varint
   \<and> getPackedUInt32Size 268435456 = 4"
  by code_simp

section \<open>Disconnecting\<close>

text \<open>
  Both revisions write the flag of the two-byte DISCONNECT with \<open>writeBoolean\<close> and no
  offset, that is at offset 0, over the packet type.
\<close>

lemma alloc_small: "alloc 2 = [0, 0]" "alloc 3 = [0, 0, 0]" "alloc 4 = [0, 0, 0, 0]"
  by code_simp+

lemma minimal_disconnect_packet:
  "writeByte (alloc 2) DISCONNECT None = Inr [0x09, 0x00]"
  "writeBoolean [0x09, 0x00] b None = Inr [if b then 0x01 else 0x00, 0x00]"
  by (simp_all add: alloc_small writeByte_def writeBoolean_def writeUInt8_def dflt_def
      DISCONNECT_def)

lemma emitted_emit_close:
  "emitted (emit_close forced reason message c) = emitted c @ [Close forced reason message]"
  by (simp add: emit_close_def closeListener_def emit_def Let_def)

lemma socket_emit_close: "socket (emit_close forced reason message c) = socket c"
  by (simp add: emit_close_def closeListener_def emit_def Let_def)

lemma disconnect_minimal:
  "forced \<or> reason = None \<Longrightarrow>
   disconnect c forced reason message =
     sendRaw [0x01, 0x00] (emit_close (Some forced) reason message c)"
  by (auto simp add: disconnect_def minimal_disconnect_packet)


text \<open>
  Claim C5, evaluated. \<open>disconnect(false, 4, "bye")\<close> hands one packet to the socket, of
  ten bytes. Its first two bytes are 0x00 0x05 and not 0x09 0x01: \<open>writeByte\<close>,
  \<open>writeBoolean\<close> and \<open>writeHazelMessage\<close> are all called without an offset and write at
  0, so the record header lands on the packet header. The reason payload is
  \<open>[0x04, 'b', 'y', 'e', 0x00]\<close> and not \<open>[0x04, 0x03, 'b', 'y', 'e']\<close>:
  \<open>writePackedUInt32\<close> returns its cursor, 0 for a one-byte length, and \<open>writeString\<close>
  copies the text over the length byte.
\<close>

theorem disconnect_bye_packet:
  "socket (disconnect new_Connection False (Some 4) (Some ''bye'')) =
     [[0x00, 0x05, 0x00, 0x04, 0x62, 0x79, 0x65, 0x00, 0x00, 0x00]]
   \<and> reasonPacket False 4 (Some ''bye'') =
     Inr [0x00, 0x05, 0x00, 0x04, 0x62, 0x79, 0x65, 0x00, 0x00, 0x00]
   \<and> writeString [0x04, 0, 0, 0, 0] ''bye'' (Some 1) = Inr ([0x04, 0x62, 0x79, 0x65, 0x00], 3)"
  by code_simp

text \<open>
  Claim C6, evaluated. In the branch \<open>!forced && typeof reason !== 'undefined'\<close> the
  client-side \<open>disconnect\<close> returns from \<open>sendRaw\<close> before it reaches
  \<open>this.emit('close', ...)\<close>: no event is emitted, whatever the connection, the reason and
  the message. The other branch emits close.
\<close>

theorem disconnect_with_reason_emits_nothing:
  "emitted (disconnect c False (Some reason) message) = emitted c
   \<and> emitted (disconnect c True r message) = emitted c @ [Close (Some True) r message]
   \<and> emitted (disconnect c False None message) = emitted c @ [Close (Some False) None message]"
proof -
  have "emitted (disconnect c False (Some reason) message) = emitted c"
    by (simp add: disconnect_def sendRaw_def split: sum.split)
  then show ?thesis
    by (simp add: disconnect_minimal emitted_emit_close sendRaw_def)
qed

text \<open>
  Claim C10, evaluated. A two-byte DISCONNECT, with either flag, makes the client-side
  \<open>handleMessage\<close> throw: \<open>readHazelMessage(2)\<close> reads a 16-bit length at offset 2 of a
  buffer of length 2. No event is emitted. Two bytes is the length of the DISCONNECT that
  every revision of \<open>disconnect(true)\<close> sends (\<open>[0x09, flag]\<close> in the earlier ones).
\<close>

theorem two_byte_disconnect_throws:
  "handleMessage Client_role [0x09, 0x01] now c = (c, Some ERR_OUT_OF_RANGE)
   \<and> handleMessage Client_role [0x09, 0x00] now c = (c, Some ERR_OUT_OF_RANGE)
   \<and> socket (disconnect c True None None) = socket c @ [[0x01, 0x00]]"
proof -
  have "handleMessage Client_role [0x09, b] now c = (c, Some ERR_OUT_OF_RANGE)" for b
    by (simp add: handleMessage_def handleDisconnect_def readHazelMessage_def readUInt16BE_def
        dflt_def NORMAL_def HELLO_def RELIABLE_def DISCONNECT_def)
  then show ?thesis
    by (simp add: disconnect_minimal socket_emit_close sendRaw_def)
qed

section \<open>Retransmission\<close>

text \<open>
  Claim C2, evaluated. \<open>sendReliable\<close> of one empty message with tag 1 on a new
  connection, and no acknowledgement. After ten firings of the interval the socket has
  received eleven identical datagrams (the first \<open>send()\<close> and ten more) and the promise
  is still pending; the eleventh firing rejects it, emits close and sends the DISCONNECT.
\<close>

theorem sendReliable_unacknowledged:
  "socket (fst (run Client_role
       (CallSendReliable [\<lparr>tag = 1, data = []\<rparr>] # replicate 10 (RetryTick 0))
       new_Connection)) = replicate 11 [0x01, 0x00, 0x01, 0x00, 0x00, 0x01]
   \<and> map r_promise (reliables (fst (run Client_role
       (CallSendReliable [\<lparr>tag = 1, data = []\<rparr>] # replicate 10 (RetryTick 0))
       new_Connection))) = [Pending]
   \<and> socket (fst (run Client_role
       (CallSendReliable [\<lparr>tag = 1, data = []\<rparr>] # replicate 11 (RetryTick 0))
       new_Connection)) = replicate 11 [0x01, 0x00, 0x01, 0x00, 0x00, 0x01] @ [[0x01, 0x00]]
   \<and> map r_promise (reliables (fst (run Client_role
       (CallSendReliable [\<lparr>tag = 1, data = []\<rparr>] # replicate 11 (RetryTick 0))
       new_Connection))) = [Rejected Not_acknowledged_after_10_attempts]
   \<and> emitted (fst (run Client_role
       (CallSendReliable [\<lparr>tag = 1, data = []\<rparr>] # replicate 11 (RetryTick 0))
       new_Connection)) = [Close (Some True) None None]"
  by code_simp

lemmas leaf_defs = emit_def sendRaw_def closeListener_def getNonce_def executor_def giveUp_def
  resend_def registerPing_def acknowledge_def call_def setSeenHello_def

section \<open>The nonce counter\<close>

definition nonce_in_range :: "Connection \<Rightarrow> bool" where
  "nonce_in_range c \<longleftrightarrow> 0 \<le> nonce c \<and> nonce c < 65535"

lemma js_rem_successor: "0 \<le> n \<Longrightarrow> js_rem (n + 1) 65535 = (n + 1) mod 65535"
  by (simp add: js_rem_def)

lemma preserved_nonce_in_range: "preserved R nonce_in_range"
  unfolding preserved_def nonce_in_range_def
  by (simp add: leaf_defs Let_def js_rem_successor split: option.split callback.split)

lemma nonce_sendReliable: "nonce (sendReliable c messages) = js_rem (nonce c + 1) 65535"
  by (simp add: sendReliable_def getNonce_def executor_def sendRaw_def Let_def split: sum.split)

text \<open>
  Claim C8. In every state \<open>c\<close> a new connection can reach, in either role, generating
  a nonce returns \<open>(nonce c + 1) mod 65535\<close>, where \<open>nonce c\<close> is the nonce generated
  before (0 at first), and stores it; \<open>sendReliable\<close> takes its nonce this way. The
  result lies in \<open>0..65534\<close>, so 65535 never appears; it is the successor of the
  previous nonce up to 65534, after which it is 0.
\<close>

theorem getNonce_successor_mod_65535:
  assumes "c = fst (run rl inps new_Connection)"
  shows "fst (getNonce c) = (nonce c + 1) mod 65535
    \<and> nonce (snd (getNonce c)) = fst (getNonce c)
    \<and> nonce (sendReliable c messages) = fst (getNonce c)
    \<and> 0 \<le> fst (getNonce c) \<and> fst (getNonce c) < 65535
    \<and> (nonce c < 65534 \<longrightarrow> fst (getNonce c) = nonce c + 1)
    \<and> (nonce c = 65534 \<longrightarrow> fst (getNonce c) = 0)
    \<and> nonce new_Connection = 0"
proof -
  have "nonce_in_range new_Connection"
    by (simp add: nonce_in_range_def new_Connection_def)
  then have "nonce_in_range c"
    unfolding assms by (rule preserved_run [OF preserved_nonce_in_range])
  then have r: "0 \<le> nonce c" "nonce c < 65535"
    by (simp_all add: nonce_in_range_def)
  then have "js_rem (nonce c + 1) 65535 = (nonce c + 1) mod 65535"
    by (simp add: js_rem_successor)
  then show ?thesis
    using r by (auto simp add: getNonce_def Let_def nonce_sendReliable new_Connection_def)
qed

text \<open>The theorem after one ping and one reliable send: the next nonce is 3.\<close>

theorem getNonce_successor_mod_65535_witness:
  "nonce (fst (run Server_role [PingTick 0, CallSendReliable []] new_Connection)) = 2
   \<and> fst (getNonce (fst (run Server_role [PingTick 0, CallSendReliable []] new_Connection))) = 3"
proof -
  have "nonce (fst (run Server_role [PingTick 0, CallSendReliable []] new_Connection)) = 2"
    by code_simp
  then show ?thesis
    using getNonce_successor_mod_65535
      [of "fst (run Server_role [PingTick 0, CallSendReliable []] new_Connection)"
        Server_role "[PingTick 0, CallSendReliable []]" "[]"]
    by simp
qed

section \<open>The round-trip samples\<close>

definition ring_of_five :: "Connection \<Rightarrow> bool" where
  "ring_of_five c \<longleftrightarrow> length (lastPings c) = 5"

lemma preserved_ring_of_five: "preserved R ring_of_five"
  unfolding preserved_def ring_of_five_def
  by (simp add: leaf_defs Let_def split: option.split callback.split)

lemma foldl_plus: "foldl (\<lambda>a b. a + b) a xs = a + sum_list (xs :: int list)"
  by (induction xs arbitrary: a) simp_all

text \<open>
  Claim C9. In every state \<open>c\<close> a new connection can reach, in either role, the sample
  ring holds five entries and \<open>ping\<close> is their arithmetic mean; the ring starts as five
  zeros; and after five pings acknowledged 10, 20, 30, 40 and 50 ms after they were sent,
  the ring holds these five values and \<open>ping\<close> is 30. The division of JavaScript is taken
  as exact.
\<close>

theorem ping_is_mean_of_five_samples:
  assumes "c = fst (run rl inps new_Connection)"
  shows "length (lastPings c) = 5
    \<and> ping c = of_int (sum_list (lastPings c)) / of_nat (length (lastPings c))
    \<and> lastPings new_Connection = [0, 0, 0, 0, 0]
    \<and> lastPings (fst (run rl
         [PingTick 0, Data [0x0A, 0, 1] 10, PingTick 1500, Data [0x0A, 0, 2] 1520,
          PingTick 3000, Data [0x0A, 0, 3] 3030, PingTick 4500, Data [0x0A, 0, 4] 4540,
          PingTick 6000, Data [0x0A, 0, 5] 6050] new_Connection)) = [10, 20, 30, 40, 50]
    \<and> ping (fst (run rl
         [PingTick 0, Data [0x0A, 0, 1] 10, PingTick 1500, Data [0x0A, 0, 2] 1520,
          PingTick 3000, Data [0x0A, 0, 3] 3030, PingTick 4500, Data [0x0A, 0, 4] 4540,
          PingTick 6000, Data [0x0A, 0, 5] 6050] new_Connection)) = 30"
proof -
  have "ring_of_five new_Connection"
    by (simp add: ring_of_five_def new_Connection_def)
  then have "ring_of_five c"
    unfolding assms by (rule preserved_run [OF preserved_ring_of_five])
  then have five: "length (lastPings c) = 5"
    by (simp add: ring_of_five_def)
  then have mean: "ping c = of_int (sum_list (lastPings c)) / of_nat (length (lastPings c))"
    by (simp add: ping_def foldl_plus)
  have init: "lastPings new_Connection = [0, 0, 0, 0, 0]"
    by (simp add: new_Connection_def)
  have samples: "lastPings (fst (run rl
         [PingTick 0, Data [0x0A, 0, 1] 10, PingTick 1500, Data [0x0A, 0, 2] 1520,
          PingTick 3000, Data [0x0A, 0, 3] 3030, PingTick 4500, Data [0x0A, 0, 4] 4540,
          PingTick 6000, Data [0x0A, 0, 5] 6050] new_Connection)) = [10, 20, 30, 40, 50]"
    by (cases rl; code_simp)
  then have "ping (fst (run rl
         [PingTick 0, Data [0x0A, 0, 1] 10, PingTick 1500, Data [0x0A, 0, 2] 1520,
          PingTick 3000, Data [0x0A, 0, 3] 3030, PingTick 4500, Data [0x0A, 0, 4] 4540,
          PingTick 6000, Data [0x0A, 0, 5] 6050] new_Connection)) = 30"
    by (simp add: ping_def)
  with five mean init samples show ?thesis
    by simp
qed

text \<open>The theorem after one ping acknowledged after 25 ms: the mean is 5.\<close>

theorem ping_is_mean_of_five_samples_witness:
  "ping (fst (run Client_role [PingTick 0, Data [0x0A, 0, 1] 25] new_Connection)) = 5
   \<and> length (lastPings (fst (run Client_role [PingTick 0, Data [0x0A, 0, 1] 25] new_Connection))) = 5"
proof -
  have "lastPings (fst (run Client_role [PingTick 0, Data [0x0A, 0, 1] 25] new_Connection))
        = [0, 0, 0, 0, 25]"
    by code_simp
  then show ?thesis
    using ping_is_mean_of_five_samples
      [of "fst (run Client_role [PingTick 0, Data [0x0A, 0, 1] 25] new_Connection)"
        Client_role "[PingTick 0, Data [0x0A, 0, 1] 25]"]
    by simp
qed

section \<open>The handshake of the server-side connection\<close>















section \<open>The acknowledgement mask\<close>

text \<open>
  Following the spec's words, for comparison with the code: the inbound reliable nonces
  observed so far, that is the nonces of the datagrams of type RELIABLE or HELLO with a
  complete header among the inputs handled. The code keeps no such set.
\<close>

fun spec_inbound_seen :: "input list \<Rightarrow> int list" where
  "spec_inbound_seen [] = []"
| "spec_inbound_seen (Data msg now # inps) =
     (if 3 \<le> length msg \<and> (msg ! 0 = RELIABLE \<or> msg ! 0 = HELLO)
      then [msg ! 1 * 256 + msg ! 2] else []) @ spec_inbound_seen inps"
| "spec_inbound_seen (inp # inps) = spec_inbound_seen inps"

lemma js_set_bit:
  assumes "0 \<le> pending" "pending < 2 ^ k" "k < 8"
  shows "js_or pending (js_shl 1 (int k)) = pending OR 2 ^ k"
proof -
  have k: "take_bit 5 (int k) = int k"
    using assms(3) by (simp add: take_bit_int_eq_self)
  have "(2::int) ^ k \<le> 2 ^ 7"
    using assms(3) by (intro power_increasing) simp_all
  then have small: "(2::int) ^ k < 2147483648" "pending < 2147483648"
    using assms(2) by simp_all
  have "ToInt32 1 = 1"
    by (simp add: ToInt32_def)
  then have "js_shl 1 (int k) = 2 ^ k"
    using small by (simp add: js_shl_def k push_bit_eq_mult ToInt32_id)
  then show ?thesis
    using assms(1) small by (simp add: js_or_def ToInt32_id)
qed

lemma or_exp_bound:
  assumes "0 \<le> (p::int)" "p < 2 ^ k"
  shows "0 \<le> p OR 2 ^ k \<and> p OR 2 ^ k < 2 ^ Suc k"
proof -
  have "p OR 2 ^ k < 2 ^ Suc k"
    using assms by (intro OR_upper) simp_all
  with assms show ?thesis by simp
qed

lemma bit_below:
  assumes "0 \<le> (p::int)" "p < 2 ^ k" "bit p j"
  shows "j < k"
proof -
  have "take_bit k p = p"
    using assms(1,2) by (simp add: take_bit_int_eq_self)
  then have "bit (take_bit k p) j"
    using assms(3) by simp
  then show ?thesis
    by (simp add: bit_take_bit_iff)
qed

lemma sendAckLoop_bits:
  fixes k :: nat
  assumes "k \<le> 8" "0 \<le> pending" "pending < 2 ^ k"
  shows "0 \<le> sendAckLoop pa n (int k + 1) pending
    \<and> sendAckLoop pa n (int k + 1) pending < 256
    \<and> (\<forall>j. bit (sendAckLoop pa n (int k + 1) pending) j \<longleftrightarrow>
           (if j < k then bit pending j else j < 8 \<and> pa (n - (int j + 1)) = None))"
  using assms
proof (induction "8 - k" arbitrary: k pending)
  case 0
  then have k: "k = 8" by simp
  have "sendAckLoop pa n (int k + 1) pending = pending"
    unfolding k by (simp add: sendAckLoop.simps [of pa n 9 pending])
  moreover have "bit pending j \<Longrightarrow> j < 8" for j
    using "0.prems"(2,3) unfolding k by (rule bit_below)
  ultimately show ?case
    using "0.prems" k by auto
next
  case (Suc d)
  then have k: "k < 8" by simp
  define p where "p = (if pa (n - (int k + 1)) = None
    then js_or pending (js_shl 1 (int k + 1 - 1)) else pending)"
  define r where "r = sendAckLoop pa n (int (Suc k) + 1) p"
  have "int k + 1 \<le> 8"
    using k by simp
  then have "sendAckLoop pa n (int k + 1) pending = sendAckLoop pa n (int k + 1 + 1) p"
    unfolding p_def by (subst sendAckLoop.simps) (simp only: if_True)
  moreover have "int k + 1 + 1 = int (Suc k) + 1"
    by simp
  ultimately have unfold: "sendAckLoop pa n (int k + 1) pending = r"
    unfolding r_def by (simp only:)
  have "int k + 1 - 1 = int k"
    by simp
  then have set: "js_or pending (js_shl 1 (int k + 1 - 1)) = pending OR 2 ^ k"
    using js_set_bit [OF Suc.prems(2,3) k] by (simp only:)
  have p: "0 \<le> p" "p < 2 ^ Suc k"
    using or_exp_bound [OF Suc.prems(2,3)] Suc.prems(2,3) unfolding p_def set by auto
  have below: "bit pending j \<Longrightarrow> j < k" for j
    using Suc.prems(2,3) by (rule bit_below)
  have bits: "bit p j \<longleftrightarrow> (if j < k then bit pending j else j = k \<and> pa (n - (int k + 1)) = None)"
    for j
    unfolding p_def set using below [of j] by (auto simp add: bit_or_iff bit_exp_iff)
  have "d = 8 - Suc k" "Suc k \<le> 8"
    using Suc.hyps(2) k by simp_all
  from Suc.hyps(1) [OF this p]
  have IH: "0 \<le> r" "r < 256"
    "\<And>j. bit r j \<longleftrightarrow> (if j < Suc k then bit p j else j < 8 \<and> pa (n - (int j + 1)) = None)"
    unfolding r_def by blast+
  have "bit r j \<longleftrightarrow> (if j < k then bit pending j else j < 8 \<and> pa (n - (int j + 1)) = None)" for j
  proof (cases "j < k")
    case True
    then show ?thesis
      by (simp add: IH(3) [of j] bits [of j])
  next
    case False
    show ?thesis
    proof (cases "j = k")
      case True
      then show ?thesis
        using k by (simp add: IH(3) [of k] bits [of k])
    next
      case no: False
      with False have "\<not> j < Suc k"
        by simp
      with False show ?thesis
        by (simp add: IH(3) [of j])
    qed
  qed
  with IH(1,2) show ?case
    unfolding unfold by blast
qed

lemma ackPacket_eq:
  assumes "0 \<le> n" "n \<le> 65535"
  shows "ackPacket pa n =
     Inr [ACKNOWLEDGEMENT, n div 256, n mod 256, sendAckLoop pa n 1 0]"
proof -
  have m: "0 \<le> sendAckLoop pa n 1 0" "sendAckLoop pa n 1 0 < 256"
    using sendAckLoop_bits [of 0 0 pa n] by simp_all
  have "writeByte (alloc 4) ACKNOWLEDGEMENT None = Inr [ACKNOWLEDGEMENT, 0, 0, 0]"
    by (simp add: alloc_small writeByte_def writeUInt8_def dflt_def ACKNOWLEDGEMENT_def)
  moreover have "writeUInt16 [ACKNOWLEDGEMENT, 0, 0, 0] n (Some 1) =
      Inr [ACKNOWLEDGEMENT, n div 256, n mod 256, 0]"
    using assms by (simp add: writeUInt16_def writeUInt16BE_def dflt_def numeral_2_eq_2)
  moreover have "writeByte [ACKNOWLEDGEMENT, n div 256, n mod 256, 0] (sendAckLoop pa n 1 0) (Some 3) =
      Inr [ACKNOWLEDGEMENT, n div 256, n mod 256, sendAckLoop pa n 1 0]"
    using m by (simp add: writeByte_def writeUInt8_def dflt_def numeral_3_eq_3)
  ultimately show ?thesis
    by (simp add: ackPacket_def Let_def)
qed

text \<open>
  Claim C1, as the code has it. For every nonce \<open>n\<close> of 16 bits that the connection
  acknowledges and every \<open>i\<close> in \<open>1..8\<close>, \<open>sendAck\<close> hands the socket one packet
  \<open>[0x0A, n\<close> big-endian\<open>, mask]\<close> whose fourth byte has bit \<open>i - 1\<close> set if and only if
  \<open>n - i\<close> is not a key of \<open>pendingAck\<close>, the table of the connection's own outbound
  nonces (pings and reliable sends) that await an acknowledgement, at that moment.
\<close>

theorem sendAck_mask_reflects_pendingAck:
  assumes "0 \<le> n" and "n \<le> 65535" and "1 \<le> i" and "i \<le> 8"
  shows "\<exists>mask. socket (sendAck n c) = socket c @ [[0x0A, n div 256, n mod 256, mask]]
      \<and> 0 \<le> mask \<and> mask < 256
      \<and> (bit mask (nat (i - 1)) \<longleftrightarrow> pendingAck c (n - i) = None)"
proof -
  define mask where "mask = sendAckLoop (pendingAck c) n 1 0"
  have m: "0 \<le> mask" "mask < 256"
    and bits: "\<And>j. bit mask j \<longleftrightarrow> (j < 8 \<and> pendingAck c (n - (int j + 1)) = None)"
    unfolding mask_def using sendAckLoop_bits [of 0 0 "pendingAck c" n] by simp_all
  have "int (nat (i - 1)) + 1 = i" "nat (i - 1) < 8"
    using assms(3,4) by simp_all
  with bits [of "nat (i - 1)"]
  have bit: "bit mask (nat (i - 1)) \<longleftrightarrow> pendingAck c (n - i) = None"
    by simp
  have "ackPacket (pendingAck c) n = Inr [ACKNOWLEDGEMENT, n div 256, n mod 256, mask]"
    unfolding mask_def using assms(1,2) by (rule ackPacket_eq)
  then have "socket (sendAck n c) = socket c @ [[0x0A, n div 256, n mod 256, mask]]"
    by (simp add: sendAck_def sendRaw_def ACKNOWLEDGEMENT_def)
  with m bit show ?thesis
    by (intro exI [of _ mask]) simp
qed

text \<open>
  The theorem after two pings (nonces 1 and 2 await their acknowledgement), for the
  inbound nonce 3 and \<open>i = 1\<close>: bit 0 of the mask is clear.
\<close>

theorem sendAck_mask_reflects_pendingAck_witness:
  "(0::int) \<le> 3 \<and> (3::int) \<le> 65535 \<and> (1::int) \<le> 1 \<and> (1::int) \<le> 8
   \<and> pendingAck (fst (run Server_role [PingTick 0, PingTick 1500] new_Connection)) (3 - 1)
       = Some (Ponged 1500)
   \<and> (\<exists>mask. socket (sendAck 3 (fst (run Server_role [PingTick 0, PingTick 1500] new_Connection)))
         = [[0x0C, 0, 1], [0x0C, 0, 2], [0x0A, 0, 3, mask]] \<and> \<not> bit mask 0)"
proof -
  define c where "c = fst (run Server_role [PingTick 0, PingTick 1500] new_Connection)"
  have pending: "pendingAck c (3 - 1) = Some (Ponged 1500)"
    unfolding c_def by code_simp
  have sock: "socket c = [[0x0C, 0, 1], [0x0C, 0, 2]]"
    unfolding c_def by code_simp
  from sendAck_mask_reflects_pendingAck [of 3 1 c]
  obtain mask where "socket (sendAck 3 c) = socket c @ [[0x0A, 3 div 256, 3 mod 256, mask]]"
    and "bit mask (nat (1 - 1)) \<longleftrightarrow> pendingAck c (3 - 1) = None"
    by auto
  with pending sock have "socket (sendAck 3 c) = [[0x0C, 0, 1], [0x0C, 0, 2], [0x0A, 0, 3, mask]]
      \<and> \<not> bit mask 0"
    by simp
  then have "\<exists>mask. socket (sendAck 3 c) = [[0x0C, 0, 1], [0x0C, 0, 2], [0x0A, 0, 3, mask]]
      \<and> \<not> bit mask 0"
    by blast
  with pending show ?thesis
    unfolding c_def by simp
qed

text \<open>
  Claim C1 as stated fails. After the reliable datagrams with nonces 40 and 42, the
  acknowledgement of nonce 43 carries the mask 0xFF in both revisions: bits 0 and 2 are
  set although 42 and 40 were received, since inbound nonces are recorded nowhere.
\<close>

theorem ack_mask_ignores_inbound_counterexample:
  "spec_inbound_seen [Data [0x01, 0, 40] 0, Data [0x01, 0, 42] 0, Data [0x01, 0, 43] 0]
     = [40, 42, 43]
   \<and> socket (fst (run Server_role
         [Data [0x01, 0, 40] 0, Data [0x01, 0, 42] 0, Data [0x01, 0, 43] 0] new_Connection))
     = [[0x0A, 0, 40, 0xFF], [0x0A, 0, 42, 0xFF], [0x0A, 0, 43, 0xFF]]
   \<and> socket (fst (run Client_role
         [Data [0x01, 0, 40] 0, Data [0x01, 0, 42] 0, Data [0x01, 0, 43] 0] new_Connection))
     = [[0x0A, 0, 40, 0xFF], [0x0A, 0, 42, 0xFF], [0x0A, 0, 43, 0xFF]]
   \<and> bit (0xFF :: int) 0 \<and> bit (0xFF :: int) 2"
  by code_simp

section \<open>Closing\<close>





































end
